theory Spec2Isabelle
  imports Complex_Main "HOL-Library.Sublist"
begin

section \<open>Python strings\<close>

text \<open>
  A Python \<open>str\<close> is a sequence of Unicode code points; \<open>len\<close> counts code points.
  A code point is a natural number, and \<open>py\<close> turns an ASCII literal into its code points.
\<close>

type_synonym pystr = "nat list"

definition py :: "string \<Rightarrow> pystr" where
  "py s = map of_char s"

text \<open>
  The Unicode character database is not part of the repository. The ASCII part of every
  classification and case mapping is written out below; for the code points from 128 on
  it is a parameter:
  \<^item> \<open>uc_space\<close>: \<open>str.isspace\<close>, which is also the \<open>\s\<close> of \<open>re\<close> and what \<open>str.strip\<close> removes;
  \<^item> \<open>uc_decimal\<close>: the \<open>\d\<close> of \<open>re\<close>;
  \<^item> \<open>uc_alnum\<close>: the alphanumeric code points (\<open>\w\<close> is these and the underscore);
  \<^item> \<open>uc_lower\<close>: the lowercase expansion of a code point, given the text before and
    after it (\<open>str.lower\<close> maps one code point to several, and looks at the context of a
    capital sigma);
  \<^item> \<open>uc_upper\<close>: the uppercase expansion of a code point.
\<close>

record ucd =
  uc_space :: "nat \<Rightarrow> bool"
  uc_decimal :: "nat \<Rightarrow> bool"
  uc_alnum :: "nat \<Rightarrow> bool"
  uc_lower :: "pystr \<Rightarrow> nat \<Rightarrow> pystr \<Rightarrow> pystr"
  uc_upper :: "nat \<Rightarrow> pystr"

text \<open>The table that classifies nothing beyond ASCII and leaves those code points alone.\<close>

definition ascii_ucd :: ucd where
  "ascii_ucd = \<lparr>uc_space = (\<lambda>c. False), uc_decimal = (\<lambda>c. False), uc_alnum = (\<lambda>c. False),
     uc_lower = (\<lambda>pre c post. [c]), uc_upper = (\<lambda>c. [c])\<rparr>"

definition is_space :: "ucd \<Rightarrow> nat \<Rightarrow> bool" where
  "is_space U c =
     (if c < 128 then (9 \<le> c \<and> c \<le> 13) \<or> (28 \<le> c \<and> c \<le> 32) else uc_space U c)"

definition is_digit :: "ucd \<Rightarrow> nat \<Rightarrow> bool" where
  "is_digit U c = (if c < 128 then 48 \<le> c \<and> c \<le> 57 else uc_decimal U c)"

definition is_word :: "ucd \<Rightarrow> nat \<Rightarrow> bool" where
  "is_word U c =
     (if c < 128
      then (48 \<le> c \<and> c \<le> 57) \<or> (65 \<le> c \<and> c \<le> 90) \<or> (97 \<le> c \<and> c \<le> 122) \<or> c = 95
      else uc_alnum U c)"

definition ascii_lower :: "nat \<Rightarrow> nat" where
  "ascii_lower c = (if 65 \<le> c \<and> c \<le> 90 then c + 32 else c)"

definition ascii_upper :: "nat \<Rightarrow> nat" where
  "ascii_upper c = (if 97 \<le> c \<and> c \<le> 122 then c - 32 else c)"

text \<open>\<open>s.lower()\<close>, left to right; \<open>pre\<close> is the part of \<open>s\<close> already passed.\<close>

fun lower_from :: "ucd \<Rightarrow> pystr \<Rightarrow> pystr \<Rightarrow> pystr" where
  "lower_from U pre [] = []"
| "lower_from U pre (c # cs) =
     (if c < 128 then [ascii_lower c] else uc_lower U pre c cs)
       @ lower_from U (pre @ [c]) cs"

definition lower :: "ucd \<Rightarrow> pystr \<Rightarrow> pystr" where
  "lower U s = lower_from U [] s"

text \<open>\<open>s.upper()\<close>.\<close>

definition upper :: "ucd \<Rightarrow> pystr \<Rightarrow> pystr" where
  "upper U s = concat (map (\<lambda>c. if c < 128 then [ascii_upper c] else uc_upper U c) s)"

text \<open>\<open>sub in s\<close> for two strings: \<open>sub\<close> occurs in \<open>s\<close> as a contiguous part.\<close>

fun contains :: "pystr \<Rightarrow> pystr \<Rightarrow> bool" where
  "contains sub [] = (sub = [])"
| "contains sub (c # cs) = (prefix sub (c # cs) \<or> contains sub cs)"

text \<open>\<open>s.strip()\<close>: the whitespace at both ends goes.\<close>

definition strip :: "ucd \<Rightarrow> pystr \<Rightarrow> pystr" where
  "strip U s = rev (dropWhile (is_space U) (rev (dropWhile (is_space U) s)))"


text \<open>\<open>sep.join(parts)\<close>.\<close>

fun join :: "pystr \<Rightarrow> pystr list \<Rightarrow> pystr" where
  "join sep [] = []"
| "join sep [x] = x"
| "join sep (x # y # ys) = x @ sep @ join sep (y # ys)"


section \<open>Exceptions, indexing, slices, dictionaries\<close>

text \<open>
  A raised exception is a value: \<open>IndexError\<close> for an index out of range, and
  \<open>PyException msg\<close> for any other exception, with \<open>msg\<close> the text \<open>str(e)\<close>.
  A computation that can raise returns \<open>error + 'a\<close>, with \<open>Inl\<close> the exception.
\<close>

datatype error = IndexError | PyException pystr

definition error_str :: "error \<Rightarrow> pystr" where
  "error_str e =
     (case e of IndexError \<Rightarrow> py ''list index out of range'' | PyException msg \<Rightarrow> msg)"

text \<open>
  \<open>try: body except Exception as e: handler\<close>, for a body whose effects before the
  exception do not matter to the handler.
\<close>

definition try_except :: "error + 'a \<Rightarrow> (error \<Rightarrow> error + 'a) \<Rightarrow> error + 'a" where
  "try_except body handler = (case body of Inl e \<Rightarrow> handler e | Inr v \<Rightarrow> Inr v)"

text \<open>\<open>s[i]\<close>: a negative index counts from the end, and an index out of range raises.\<close>

definition getitem :: "pystr \<Rightarrow> int \<Rightarrow> error + nat" where
  "getitem s i =
     (if 0 \<le> i \<and> i < int (length s) then Inr (s ! nat i)
      else if i < 0 \<and> - int (length s) \<le> i then Inr (s ! nat (int (length s) + i))
      else Inl IndexError)"

text \<open>
  \<open>xs[a:b]\<close>: a negative bound counts from the end, and both bounds are clamped to the
  list, so a slice never raises. \<open>xs[:b]\<close> is \<open>slice xs 0 b\<close>.
\<close>

definition slice_bound :: "int \<Rightarrow> int \<Rightarrow> int" where
  "slice_bound n i = (if i < 0 then max 0 (n + i) else min n i)"

definition slice :: "'a list \<Rightarrow> int \<Rightarrow> int \<Rightarrow> 'a list" where
  "slice xs a b =
     (let n = int (length xs); lo = slice_bound n a; hi = slice_bound n b
      in take (nat (hi - lo)) (drop (nat lo) xs))"

text \<open>\<open>d.get(k, dflt)\<close>.\<close>

definition dict_get :: "('k \<rightharpoonup> 'v) \<Rightarrow> 'k \<Rightarrow> 'v \<Rightarrow> 'v" where
  "dict_get d k dflt = (case d k of None \<Rightarrow> dflt | Some v \<Rightarrow> v)"


section \<open>pdf\_processor.py: the text normalizer\<close>

text \<open>\<open>re.sub(r'\s+', ' ', text)\<close>: every maximal run of whitespace becomes one space.\<close>

function collapse_ws :: "ucd \<Rightarrow> pystr \<Rightarrow> pystr" where
  "collapse_ws U [] = []"
| "collapse_ws U (c # cs) =
     (if is_space U c then 32 # collapse_ws U (dropWhile (is_space U) cs)
      else c # collapse_ws U cs)"
  by pat_completeness auto
termination
  by (relation "measure (\<lambda>(U, s). length s)") (auto simp: length_dropWhile_le less_Suc_eq_le)

text \<open>
  The two pagination patterns. A matcher takes the text from the position tried and returns
  what is left after the match, or \<open>None\<close>. \<open>\d+\<close> and \<open>\s*\<close> are greedy, and the
  engine would give characters back on failure; here that never helps, because what follows
  \<open>\d+\<close> or \<open>\s*\<close> in the two patterns cannot start with a character of the class just
  matched (no code point is both a decimal digit and whitespace, and neither \<open>o\<close> nor the
  space is a digit). So the longest run is the only candidate.
\<close>

definition match_lit :: "pystr \<Rightarrow> pystr \<Rightarrow> pystr option" where
  "match_lit lit s = (if prefix lit s then Some (drop (length lit) s) else None)"

definition match_digits :: "ucd \<Rightarrow> pystr \<Rightarrow> pystr option" where
  "match_digits U s =
     (case s of
        [] \<Rightarrow> None
      | c # cs \<Rightarrow> if is_digit U c then Some (dropWhile (is_digit U) cs) else None)"

definition skip_spaces :: "ucd \<Rightarrow> pystr \<Rightarrow> pystr" where
  "skip_spaces U s = dropWhile (is_space U) s"

text \<open>\<open>Page \d+ of \d+\<close>\<close>

definition match_page :: "ucd \<Rightarrow> pystr \<Rightarrow> pystr option" where
  "match_page U s =
     Option.bind (match_lit (py ''Page '') s) (\<lambda>s1.
     Option.bind (match_digits U s1) (\<lambda>s2.
     Option.bind (match_lit (py '' of '') s2) (\<lambda>s3.
     match_digits U s3)))"

text \<open>\<open>\d+\s*of\s*\d+\<close>\<close>

definition match_n_of_m :: "ucd \<Rightarrow> pystr \<Rightarrow> pystr option" where
  "match_n_of_m U s =
     Option.bind (match_digits U s) (\<lambda>s1.
     Option.bind (match_lit (py ''of'') (skip_spaces U s1)) (\<lambda>s2.
     match_digits U (skip_spaces U s2)))"

text \<open>
  \<open>re.sub(pattern, '', text)\<close>: the scan goes left to right; where the pattern matches,
  the match is dropped and the scan goes on after it; elsewhere the character is kept. (A
  match that consumes nothing deletes nothing; the two patterns above have none.)
\<close>

function re_sub_delete :: "(pystr \<Rightarrow> pystr option) \<Rightarrow> pystr \<Rightarrow> pystr" where
  "re_sub_delete m [] = []"
| "re_sub_delete m (c # cs) =
     (case m (c # cs) of
        None \<Rightarrow> c # re_sub_delete m cs
      | Some rest \<Rightarrow>
          if length rest < length (c # cs) then re_sub_delete m rest
          else c # re_sub_delete m cs)"
  by pat_completeness auto
termination
  by (relation "measure (\<lambda>(m, s). length s)") auto

text \<open>
  The character class of the last substitution, without its negation: word characters,
  whitespace, the five Arabic ranges, and the punctuation marks (full stop, comma, the
  exclamation and question marks, semicolon, colon, the three kinds of brackets, both
  quotes and the hyphen).
\<close>

definition kept_punctuation :: pystr where
  "kept_punctuation = py ''.,!?;:()[]{}\"'-''"

definition in_arabic_ranges :: "nat \<Rightarrow> bool" where
  "in_arabic_ranges c =
     ((0x0600 \<le> c \<and> c \<le> 0x06FF) \<or> (0x0750 \<le> c \<and> c \<le> 0x077F)
      \<or> (0x08A0 \<le> c \<and> c \<le> 0x08FF) \<or> (0xFB50 \<le> c \<and> c \<le> 0xFDFF)
      \<or> (0xFE70 \<le> c \<and> c \<le> 0xFEFF))"

definition keep_char :: "ucd \<Rightarrow> nat \<Rightarrow> bool" where
  "keep_char U c =
     (is_word U c \<or> is_space U c \<or> in_arabic_ranges c \<or> c \<in> set kept_punctuation)"

text \<open>\<open>PDFProcessor.clean_text\<close>: the four substitutions in the source's order, then \<open>strip\<close>.\<close>

definition clean_text :: "ucd \<Rightarrow> pystr \<Rightarrow> pystr" where
  "clean_text U text =
     (let text1 = collapse_ws U text;
          text2 = re_sub_delete (match_page U) text1;
          text3 = re_sub_delete (match_n_of_m U) text2;
          text4 = filter (keep_char U) text3
      in strip U text4)"


section \<open>pdf\_processor.py: the chunker\<close>

text \<open>
  The inner \<open>for i in range(end, max(start + chunk_size - 200, start), -1)\<close>: from \<open>i\<close>
  down to \<open>stop + 1\<close>, the first index that holds a sentence terminator. Reading
  \<open>text[i]\<close> can raise.
\<close>

function find_break :: "pystr \<Rightarrow> int \<Rightarrow> int \<Rightarrow> error + int option" where
  "find_break text i stop =
     (if i \<le> stop then Inr None
      else case getitem text i of
             Inl e \<Rightarrow> Inl e
           | Inr c \<Rightarrow> if contains [c] (py ''.!?'') then Inr (Some i)
                     else find_break text (i - 1) stop)"
  by pat_completeness auto
termination
  by (relation "measure (\<lambda>(text, i, stop). nat (i - stop))") auto

text \<open>The value of \<open>end\<close> for the window that starts at \<open>start\<close>.\<close>

definition window_end :: "pystr \<Rightarrow> int \<Rightarrow> int \<Rightarrow> error + int" where
  "window_end text chunk_size start =
     (let fin = start + chunk_size in
      if fin < int (length text) then
        (case find_break text fin (max (start + chunk_size - 200) start) of
           Inl e \<Rightarrow> Inl e
         | Inr None \<Rightarrow> Inr fin
         | Inr (Some i) \<Rightarrow> Inr (i + 1))
      else Inr fin)"

text \<open>
  The \<open>while start < len(text)\<close> loop, with \<open>start\<close> and \<open>chunks\<close> as its state. The loop
  may run forever, so its result is an option: \<open>None\<close> is the loop that does not return,
  \<open>Some (Inl e)\<close> an exception, \<open>Some (Inr chunks)\<close> the returned list.
\<close>

partial_function (option) split_loop ::
  "ucd \<Rightarrow> pystr \<Rightarrow> int \<Rightarrow> int \<Rightarrow> int \<Rightarrow> pystr list \<Rightarrow> (error + pystr list) option" where
  "split_loop U text chunk_size overlap start chunks =
     (if start < int (length text) then
        (case window_end text chunk_size start of
           Inl e \<Rightarrow> Some (Inl e)
         | Inr fin \<Rightarrow>
             let chunk = strip U (slice text start fin);
                 chunks' = (if chunk \<noteq> [] then chunks @ [chunk] else chunks);
                 start' = fin - overlap
             in if start' \<ge> int (length text) then Some (Inr chunks')
                else split_loop U text chunk_size overlap start' chunks')
      else Some (Inr chunks))"

text \<open>\<open>PDFProcessor.split_text_into_chunks\<close>\<close>

definition split_text_into_chunks ::
  "ucd \<Rightarrow> pystr \<Rightarrow> int \<Rightarrow> int \<Rightarrow> (error + pystr list) option" where
  "split_text_into_chunks U text chunk_size overlap =
     (if int (length text) \<le> chunk_size then Some (Inr [text])
      else split_loop U text chunk_size overlap 0 [])"

text \<open>
  The same loop, keeping the window \<open>(start, end)\<close> of every iteration instead of the
  chunk cut from it: the claims about overlap and coverage speak of these windows.
\<close>

partial_function (option) window_loop ::
  "pystr \<Rightarrow> int \<Rightarrow> int \<Rightarrow> int \<Rightarrow> (int \<times> int) list \<Rightarrow> (error + (int \<times> int) list) option" where
  "window_loop text chunk_size overlap start windows =
     (if start < int (length text) then
        (case window_end text chunk_size start of
           Inl e \<Rightarrow> Some (Inl e)
         | Inr fin \<Rightarrow>
             let windows' = windows @ [(start, fin)];
                 start' = fin - overlap
             in if start' \<ge> int (length text) then Some (Inr windows')
                else window_loop text chunk_size overlap start' windows')
      else Some (Inr windows))"

definition split_windows :: "pystr \<Rightarrow> int \<Rightarrow> int \<Rightarrow> (error + (int \<times> int) list) option" where
  "split_windows text chunk_size overlap = window_loop text chunk_size overlap 0 []"

text \<open>The chunks the loop cuts from a list of windows: stripped, the empty ones left out.\<close>

definition chunks_of :: "ucd \<Rightarrow> pystr \<Rightarrow> (int \<times> int) list \<Rightarrow> pystr list" where
  "chunks_of U text ws =
     filter (\<lambda>chunk. chunk \<noteq> []) (map (\<lambda>w. strip U (slice text (fst w) (snd w))) ws)"


section \<open>pdf\_processor.py: the categorizer\<close>

text \<open>\<open>PDFProcessor.categorize_law\<close>: the \<open>if\<close>/\<open>elif\<close> chain over the lowercased file name.\<close>

definition categorize_law :: "ucd \<Rightarrow> pystr \<Rightarrow> pystr" where
  "categorize_law U filename =
     (let filename_lower = lower U filename in
      if contains (py ''civil'') filename_lower then py ''civil_law''
      else if contains (py ''criminal'') filename_lower then py ''criminal_law''
      else if contains (py ''labor'') filename_lower then py ''labor_law''
      else if contains (py ''company'') filename_lower then py ''company_law''
      else if contains (py ''traffic'') filename_lower then py ''traffic_law''
      else if contains (py ''sharia'') filename_lower then py ''sharia_law''
      else if contains (py ''board'') filename_lower \<and> contains (py ''grievance'') filename_lower
        then py ''administrative_law''
      else if contains (py ''basic'') filename_lower \<and> contains (py ''governance'') filename_lower
        then py ''constitutional_law''
      else py ''general_law'')"

text \<open>
  The rule list in the words of the specification: each rule has the keywords that must all
  occur in the lowercased file name, and the law type it gives; the first rule that matches
  wins, and \<open>general_law\<close> is the answer when none does.
\<close>

definition categorize_rules :: "(pystr list \<times> pystr) list" where
  "categorize_rules =
     [([py ''civil''], py ''civil_law''),
      ([py ''criminal''], py ''criminal_law''),
      ([py ''labor''], py ''labor_law''),
      ([py ''company''], py ''company_law''),
      ([py ''traffic''], py ''traffic_law''),
      ([py ''sharia''], py ''sharia_law''),
      ([py ''board'', py ''grievance''], py ''administrative_law''),
      ([py ''basic'', py ''governance''], py ''constitutional_law'')]"

definition rule_matches :: "pystr \<Rightarrow> pystr list \<times> pystr \<Rightarrow> bool" where
  "rule_matches name rule = list_all (\<lambda>k. contains k name) (fst rule)"

definition categorize_spec :: "ucd \<Rightarrow> pystr \<Rightarrow> pystr" where
  "categorize_spec U filename =
     (case find (rule_matches (lower U filename)) categorize_rules of
        Some rule \<Rightarrow> snd rule
      | None \<Rightarrow> py ''general_law'')"


section \<open>lawgpt\_utils.py: retrieval\<close>

text \<open>
  A search hit of the vector store: its payload dictionary and its similarity score. The
  payload values read here are strings, as \<open>upload_data.py\<close> stores them. The score is a
  float in the source; the model takes it in the reals (no NaN).
\<close>

record hit =
  payload :: "pystr \<rightharpoonup> pystr"
  score :: real

text \<open>The dictionary that \<open>get_relevant_documents\<close> builds for each hit.\<close>

record doc =
  doc_id :: pystr
  doc_text :: pystr
  doc_source :: pystr
  doc_law_type :: pystr
  doc_filename :: pystr
  doc_score :: real

text \<open>
  The three module-level clients; each is \<open>None\<close> when its construction failed at import.
  \<^item> \<open>embedder\<close>: \<open>embedder.encode(query, normalize_embeddings=True).tolist()\<close>;
  \<^item> \<open>qdrant_client\<close>: \<open>qdrant_client.search(collection_name, query_vector, limit)\<close>;
  \<^item> \<open>openai_client\<close>: the chat completion for a prompt, that is
    \<open>create(...).choices[0].message.content\<close>.
  Each call returns its value or raises; what the external services compute is not fixed.
\<close>

record services =
  embedder :: "(pystr \<Rightarrow> error + real list) option"
  qdrant_client :: "(pystr \<Rightarrow> real list \<Rightarrow> int \<Rightarrow> error + hit list) option"
  openai_client :: "(pystr \<Rightarrow> error + pystr) option"

definition LAW_TYPE_MAPPING :: "(pystr \<times> pystr list) list" where
  "LAW_TYPE_MAPPING =
     [(py ''sharia'', [py ''sharia_law'', py ''islamic_law'']),
      (py ''labour'', [py ''labor_law'', py ''employment_law'']),
      (py ''regulatory'', [py ''administrative_law'', py ''regulatory_law'', py ''compliance'']),
      (py ''hybrid'', [py ''all''])]"

text \<open>\<open>LAW_TYPE_MAPPING.get(law_filter.lower(), ["all"])\<close>\<close>

definition allowed_law_types :: "ucd \<Rightarrow> pystr \<Rightarrow> pystr list" where
  "allowed_law_types U law_filter =
     (case map_of LAW_TYPE_MAPPING (lower U law_filter) of
        Some types \<Rightarrow> types
      | None \<Rightarrow> [py ''all''])"

text \<open>The test of the manual filter loop: does the hit \<open>r\<close> go into \<open>filtered_results\<close>?\<close>

definition passes_filter :: "ucd \<Rightarrow> pystr \<Rightarrow> hit \<Rightarrow> bool" where
  "passes_filter U law_filter r =
     (let law_type = lower U (dict_get (payload r) (py ''law_type'') (py ''''))
      in if lower U law_filter = py ''hybrid'' \<or> py ''all'' \<in> set (allowed_law_types U law_filter)
         then True
         else list_ex (\<lambda>allowed_type. contains allowed_type law_type)
                (allowed_law_types U law_filter))"

definition pdf_doc :: "hit \<Rightarrow> doc" where
  "pdf_doc r =
     \<lparr>doc_id = dict_get (payload r) (py ''title'') (py ''''),
      doc_text = dict_get (payload r) (py ''text'') (py ''''),
      doc_source = dict_get (payload r) (py ''source'') (py ''unknown''),
      doc_law_type = dict_get (payload r) (py ''law_type'') (py ''general''),
      doc_filename = dict_get (payload r) (py ''filename'') (py ''''),
      doc_score = score r\<rparr>"

definition case_doc :: "hit \<Rightarrow> doc" where
  "case_doc r =
     \<lparr>doc_id = dict_get (payload r) (py ''title'') (py ''''),
      doc_text = dict_get (payload r) (py ''text'') (py ''''),
      doc_source = py ''case'',
      doc_law_type = dict_get (payload r) (py ''law_type'') (py ''case_law''),
      doc_filename = dict_get (payload r) (py ''filename'') (py ''''),
      doc_score = score r\<rparr>"

text \<open>
  What the first \<open>try\<close> block appends for the hits of \<open>ksa_legal_docs\<close>: the first
  \<open>top_k\<close> of the filtered hits (the loop over \<open>filtered_results[:top_k]\<close>), and then every
  hit again (the loop over \<open>pdf_results\<close>).
\<close>

definition pdf_docs :: "ucd \<Rightarrow> int \<Rightarrow> pystr \<Rightarrow> hit list \<Rightarrow> doc list" where
  "pdf_docs U top_k law_filter pdf_results =
     (let filtered_results = filter (passes_filter U law_filter) pdf_results
      in map pdf_doc (slice filtered_results 0 top_k) @ map pdf_doc pdf_results)"

text \<open>
  The bodies of the two inner \<open>try\<close> blocks, from \<open>all_results\<close> to the extended
  \<open>all_results\<close>. In both, only the search can raise, and it does so before
  anything is appended.
\<close>

definition search_pdfs ::
  "ucd \<Rightarrow> (pystr \<Rightarrow> real list \<Rightarrow> int \<Rightarrow> error + hit list) \<Rightarrow> real list \<Rightarrow> int \<Rightarrow> pystr
     \<Rightarrow> doc list \<Rightarrow> error + doc list" where
  "search_pdfs U search query_embedding top_k law_filter all_results =
     (case search (py ''ksa_legal_docs'') query_embedding (top_k * 3) of
        Inl e \<Rightarrow> Inl e
      | Inr pdf_results \<Rightarrow> Inr (all_results @ pdf_docs U top_k law_filter pdf_results))"

definition search_cases ::
  "(pystr \<Rightarrow> real list \<Rightarrow> int \<Rightarrow> error + hit list) \<Rightarrow> real list \<Rightarrow> int
     \<Rightarrow> doc list \<Rightarrow> error + doc list" where
  "search_cases search query_embedding top_k all_results =
     (case search (py ''ksa_cases'') query_embedding top_k of
        Inl e \<Rightarrow> Inl e
      | Inr case_results \<Rightarrow> Inr (all_results @ map case_doc case_results))"

text \<open>
  \<open>all_results.sort(key=lambda x: x['score'], reverse=True)\<close>: a stable sort, highest
  score first.
\<close>

definition sort_by_score :: "doc list \<Rightarrow> doc list" where
  "sort_by_score ds = sort_key (\<lambda>d. - doc_score d) ds"

definition get_relevant_documents ::
  "ucd \<Rightarrow> services \<Rightarrow> pystr \<Rightarrow> int \<Rightarrow> pystr \<Rightarrow> error + doc list" where
  "get_relevant_documents U S query top_k law_filter =
     (case qdrant_client S of
        None \<Rightarrow> Inr []
      | Some search \<Rightarrow>
         (case embedder S of
            None \<Rightarrow> Inr []
          | Some encode \<Rightarrow>
              try_except
                (case encode query of
                   Inl e \<Rightarrow> Inl e
                 | Inr query_embedding \<Rightarrow>
                    (case try_except (search_pdfs U search query_embedding top_k law_filter [])
                            (\<lambda>e. Inr []) of
                       Inl e \<Rightarrow> Inl e
                     | Inr all_results \<Rightarrow>
                        (case try_except (search_cases search query_embedding top_k all_results)
                                (\<lambda>e. Inr all_results) of
                           Inl e \<Rightarrow> Inl e
                         | Inr all_results' \<Rightarrow>
                             Inr (slice (sort_by_score all_results') 0 top_k))))
                (\<lambda>e. Inr [])))"

text \<open>
  A call \<open>get_relevant_documents(query, ...)\<close> that may leave out \<open>top_k\<close> and
  \<open>law_filter\<close>: an argument left out takes the default of the signature,
  \<open>top_k=5, law_filter="hybrid"\<close>.
\<close>

definition call_get_relevant_documents ::
  "ucd \<Rightarrow> services \<Rightarrow> pystr \<Rightarrow> int option \<Rightarrow> pystr option \<Rightarrow> error + doc list" where
  "call_get_relevant_documents U S query top_k law_filter =
     get_relevant_documents U S query
       (case top_k of None \<Rightarrow> 5 | Some k \<Rightarrow> k)
       (case law_filter of None \<Rightarrow> py ''hybrid'' | Some f \<Rightarrow> f)"

text \<open>\<open>get_relevant_cases\<close>: \<open>return get_relevant_documents(query, top_k)\<close>.\<close>

definition get_relevant_cases :: "ucd \<Rightarrow> services \<Rightarrow> pystr \<Rightarrow> int \<Rightarrow> error + doc list" where
  "get_relevant_cases U S query top_k = call_get_relevant_documents U S query (Some top_k) None"


section \<open>lawgpt\_utils.py: the answer composer\<close>

text \<open>The context block and the prompt that \<open>ask_chatbot\<close> builds from the retrieved documents.\<close>

definition cases_context :: "doc list \<Rightarrow> pystr" where
  "cases_context cases =
     py ''\<newline>\<newline>--- RELEVANT CASES ---\<newline>''
     @ join (py ''\<newline>\<newline>'')
         (map (\<lambda>c. py ''Case: '' @ doc_id c @ py ''\<newline>'' @ doc_text c) cases)"

definition pdfs_context :: "doc list \<Rightarrow> pystr" where
  "pdfs_context pdfs =
     py ''\<newline>\<newline>--- RELEVANT LAW ARTICLES ---\<newline>''
     @ join (py ''\<newline>\<newline>'')
         (map (\<lambda>p. py ''Source: '' @ doc_filename p @ py '' ('' @ doc_law_type p @ py '')\<newline>''
                  @ doc_text p) pdfs)"

definition build_context :: "ucd \<Rightarrow> pystr \<Rightarrow> doc list \<Rightarrow> pystr" where
  "build_context U law_filter relevant_docs =
     (let cases = filter (\<lambda>d. doc_source d = py ''case'') relevant_docs;
          pdfs = filter (\<lambda>d. doc_source d = py ''pdf'') relevant_docs;
          filter_info = py ''Search Filter: '' @ upper U law_filter @ py '' Law'';
          context_parts = [py ''--- '' @ filter_info @ py '' ---''];
          context_parts = (if cases \<noteq> [] then context_parts @ [cases_context cases]
                           else context_parts);
          context_parts = (if pdfs \<noteq> [] then context_parts @ [pdfs_context pdfs]
                           else context_parts)
      in join (py ''\<newline>'') context_parts)"

definition build_prompt :: "ucd \<Rightarrow> pystr \<Rightarrow> pystr \<Rightarrow> doc list \<Rightarrow> pystr" where
  "build_prompt U query law_filter relevant_docs =
     (if relevant_docs \<noteq> [] then
        py ''You are a legal assistant for KSA law, specializing in '' @ upper U law_filter
        @ py '' law.\<newline>A user asks: \"'' @ query @ py ''\"\<newline>\<newline>''
        @ py ''Here are relevant legal sources (filtered for '' @ upper U law_filter
        @ py '' law):\<newline>'' @ build_context U law_filter relevant_docs @ py ''\<newline>\<newline>''
        @ py ''Based on these sources, provide a comprehensive and accurate answer focused on ''
        @ upper U law_filter
        @ py '' law. Reference specific cases and law articles where applicable. ''
        @ py ''If the sources don't fully address the question, mention that and suggest ''
        @ py ''consulting with a qualified legal professional.\<newline>''
      else
        py ''You are a legal assistant for KSA law, specializing in '' @ upper U law_filter
        @ py '' law.\<newline>A user asks: \"'' @ query @ py ''\"\<newline>\<newline>''
        @ py ''Please provide a helpful and accurate answer based on general KSA ''
        @ upper U law_filter
        @ py '' law knowledge. If you're unsure about specific details, please mention that ''
        @ py ''and suggest consulting with a qualified legal professional.\<newline>'')"

text \<open>The three texts that \<open>ask_chatbot\<close> returns without a generated answer.\<close>

definition unavailable_message :: pystr where
  "unavailable_message =
     py ''Sorry, the AI service is currently unavailable. Please check your Azure OpenAI configuration.''"

definition contract_fallback :: pystr where
  "contract_fallback =
     py ''Based on KSA contract law, contracts must meet several requirements to be valid:\<newline>\<newline>''
     @ py ''1. **Offer and Acceptance**: Both parties must agree to the terms\<newline>''
     @ py ''2. **Capacity**: Parties must be legally capable of entering contracts\<newline>''
     @ py ''3. **Consideration**: There must be mutual benefit\<newline>''
     @ py ''4. **Legal Purpose**: The contract must be for lawful purposes\<newline>''
     @ py ''5. **Form**: Some contracts require specific forms (written, notarized, etc.)\<newline>\<newline>''
     @ py ''For specific legal advice, please consult with a qualified Saudi Arabian lawyer.''"

definition generic_fallback :: "pystr \<Rightarrow> error \<Rightarrow> pystr" where
  "generic_fallback query e =
     py ''I'm currently unable to access the AI service to provide a detailed answer about \"''
     @ query @ py ''\". \<newline>\<newline>''
     @ py ''For accurate legal information about KSA law, I recommend:\<newline>''
     @ py ''- Consulting with a qualified Saudi Arabian lawyer\<newline>''
     @ py ''- Checking official government legal resources\<newline>''
     @ py ''- Contacting the Ministry of Justice\<newline>\<newline>''
     @ py ''Error details: '' @ error_str e"

text \<open>
  The first half of \<open>ask_chatbot\<close>: retrieval with \<open>top_k=5\<close>, and the prompt.
\<close>

definition chat_prompt :: "ucd \<Rightarrow> services \<Rightarrow> pystr \<Rightarrow> pystr \<Rightarrow> error + pystr" where
  "chat_prompt U S query law_filter =
     (case get_relevant_documents U S query 5 law_filter of
        Inl e \<Rightarrow> Inl e
      | Inr relevant_docs \<Rightarrow> Inr (build_prompt U query law_filter relevant_docs))"

text \<open>
  \<open>ask_chatbot\<close>: without a client the fixed message; otherwise the completion, and in
  the \<open>except\<close> branch one of the two fallback texts.
\<close>

definition ask_chatbot :: "ucd \<Rightarrow> services \<Rightarrow> pystr \<Rightarrow> pystr \<Rightarrow> error + pystr" where
  "ask_chatbot U S query law_filter =
     (case chat_prompt U S query law_filter of
        Inl e \<Rightarrow> Inl e
      | Inr prompt \<Rightarrow>
         (case openai_client S of
            None \<Rightarrow> Inr unavailable_message
          | Some create \<Rightarrow>
              try_except (create prompt)
                (\<lambda>e. if contains (py ''contract'') (lower U query) then Inr contract_fallback
                     else Inr (generic_fallback query e))))"


section \<open>Vocabulary of the properties\<close>

subsection \<open>Normalizer\<close>

text \<open>Two whitespace characters stand next to each other in \<open>s\<close>.\<close>

fun double_space :: "ucd \<Rightarrow> pystr \<Rightarrow> bool" where
  "double_space U (a # b # cs) = ((is_space U a \<and> is_space U b) \<or> double_space U (b # cs))"
| "double_space U cs = False"

subsection \<open>Chunker\<close>

text \<open>
  The configurations in which every iteration moves \<open>start\<close> forward, whatever the text:
  the overlap is not negative, smaller than the chunk size, and smaller than the least
  distance from \<open>start\<close> at which a sentence break can end a window, which is
  \<open>max (chunk_size - 198) 2\<close>. The defaults 1000 and 200 are such a configuration.
\<close>

definition good_config :: "int \<Rightarrow> int \<Rightarrow> bool" where
  "good_config chunk_size overlap =
     (0 \<le> overlap \<and> overlap < chunk_size \<and> overlap < max (chunk_size - 198) 2)"

text \<open>Every window but the first starts \<open>overlap\<close> characters before the end of the one before it.\<close>

fun overlap_linked :: "int \<Rightarrow> (int \<times> int) list \<Rightarrow> bool" where
  "overlap_linked overlap (w1 # w2 # ws) =
     (fst w2 = snd w1 - overlap \<and> overlap_linked overlap (w2 # ws))"
| "overlap_linked overlap ws = True"

text \<open>
  The windows of a call that returns, from \<open>start\<close> on, in a text of length \<open>n\<close>: every
  window begins at the current \<open>start\<close>, which lies in the text, and is longer than the
  overlap, so that the next \<open>start\<close>, its end minus the overlap, lies further right;
  after the last window the next \<open>start\<close> is at or past the end of the text.
\<close>

fun window_chain :: "int \<Rightarrow> int \<Rightarrow> int \<Rightarrow> (int \<times> int) list \<Rightarrow> bool" where
  "window_chain n overlap start [] = (n \<le> start)"
| "window_chain n overlap start (w # ws) =
     (fst w = start \<and> 0 \<le> start \<and> start < n \<and> start + overlap < snd w
      \<and> window_chain n overlap (snd w - overlap) ws)"

text \<open>
  The characters that two consecutive windows have in common: the text from the start of
  the second window to the end of the first. \<open>shares\<close> says that this text ends the slice
  of the first window and begins the slice of the second, and gives its length:
  \<open>overlap\<close>, less what the first window reaches past the end of the text.
\<close>

definition common_text :: "pystr \<Rightarrow> int \<times> int \<Rightarrow> int \<times> int \<Rightarrow> pystr" where
  "common_text text w1 w2 = slice text (fst w2) (snd w1)"

definition shares :: "pystr \<Rightarrow> int \<Rightarrow> int \<times> int \<Rightarrow> int \<times> int \<Rightarrow> bool" where
  "shares text overlap w1 w2 =
     (suffix (common_text text w1 w2) (slice text (fst w1) (snd w1))
      \<and> prefix (common_text text w1 w2) (slice text (fst w2) (snd w2))
      \<and> int (length (common_text text w1 w2)) = overlap - max 0 (snd w1 - int (length text)))"

text \<open>\<open>P\<close> holds of every two neighbours in a list.\<close>

fun all_adjacent :: "('a \<Rightarrow> 'a \<Rightarrow> bool) \<Rightarrow> 'a list \<Rightarrow> bool" where
  "all_adjacent P (x # y # zs) = (P x y \<and> all_adjacent P (y # zs))"
| "all_adjacent P zs = True"

definition in_window :: "int \<Rightarrow> int \<times> int \<Rightarrow> bool" where
  "in_window j w = (fst w \<le> j \<and> j < snd w)"

text \<open>Every position of a text of length \<open>n\<close> lies in one of the windows.\<close>

definition covers :: "(int \<times> int) list \<Rightarrow> nat \<Rightarrow> bool" where
  "covers ws n = list_all (\<lambda>j. list_ex (in_window (int j)) ws) [0..<n]"

subsection \<open>Retrieval\<close>

definition sorted_desc :: "doc list \<Rightarrow> bool" where
  "sorted_desc ds = sorted_wrt (\<lambda>a b. doc_score b \<le> doc_score a) ds"

text \<open>
  Sample services for the concrete cases below. The store \<open>sample_store\<close> holds two
  articles and one case; \<open>articles_down\<close> and \<open>cases_down\<close> are the same store with one
  collection failing; the generation backend of \<open>backend_down\<close> raises on every call.
\<close>

definition labor_hit :: hit where
  "labor_hit = \<lparr>payload = map_of [(py ''title'', py ''Labor Law''), (py ''source'', py ''pdf''),
     (py ''law_type'', py ''labor_law'')], score = 0.9\<rparr>"

definition sharia_hit :: hit where
  "sharia_hit = \<lparr>payload = map_of [(py ''title'', py ''Zakat''), (py ''source'', py ''pdf''),
     (py ''law_type'', py ''sharia_law'')], score = 0.5\<rparr>"

definition case_hit :: hit where
  "case_hit = \<lparr>payload = map_of [(py ''title'', py ''Case 7'')], score = 0.7\<rparr>"

definition sample_store :: "pystr \<Rightarrow> real list \<Rightarrow> int \<Rightarrow> error + hit list" where
  "sample_store collection_name query_vector limit =
     (if collection_name = py ''ksa_legal_docs'' then Inr [labor_hit, sharia_hit]
      else Inr [case_hit])"

definition articles_down :: "pystr \<Rightarrow> real list \<Rightarrow> int \<Rightarrow> error + hit list" where
  "articles_down collection_name query_vector limit =
     (if collection_name = py ''ksa_legal_docs'' then Inl (PyException (py ''timeout''))
      else Inr [case_hit])"

definition cases_down :: "pystr \<Rightarrow> real list \<Rightarrow> int \<Rightarrow> error + hit list" where
  "cases_down collection_name query_vector limit =
     (if collection_name = py ''ksa_legal_docs'' then Inr [labor_hit, sharia_hit]
      else Inl (PyException (py ''timeout'')))"

definition sample_encode :: "pystr \<Rightarrow> error + real list" where
  "sample_encode query = Inr [1, 0]"

definition failing_create :: "pystr \<Rightarrow> error + pystr" where
  "failing_create prompt = Inl (PyException (py ''timeout''))"

definition sample_services :: services where
  "sample_services =
     \<lparr>embedder = Some sample_encode, qdrant_client = Some sample_store, openai_client = None\<rparr>"

definition backend_down :: services where
  "backend_down =
     \<lparr>embedder = None, qdrant_client = None, openai_client = Some failing_create\<rparr>"


section \<open>Properties of the categorizer\<close>

lemma lower_KSA_Labor_Law:
  "lower U (py ''KSA_Labor_Law_2020.pdf'') = py ''ksa_labor_law_2020.pdf''"
  by (simp add: lower_def py_def ascii_lower_def)

lemma lower_Basic_Law:
  "lower U (py ''Basic_Law_of_Governance.pdf'') = py ''basic_law_of_governance.pdf''"
  by (simp add: lower_def py_def ascii_lower_def)

lemma lower_random_doc:
  "lower U (py ''random_doc.pdf'') = py ''random_doc.pdf''"
  by (simp add: lower_def py_def ascii_lower_def)

lemma categorize_law_eq_spec: "categorize_law U filename = categorize_spec U filename"
  by (simp add: categorize_law_def categorize_spec_def categorize_rules_def rule_matches_def
      Let_def)

lemma categorize_law_labor:
  "categorize_law U (py ''KSA_Labor_Law_2020.pdf'') = py ''labor_law''"
  unfolding categorize_law_def lower_KSA_Labor_Law
  by (simp add: py_def)

lemma categorize_law_governance:
  "categorize_law U (py ''Basic_Law_of_Governance.pdf'') = py ''constitutional_law''"
  unfolding categorize_law_def lower_Basic_Law
  by (simp add: py_def)

lemma categorize_law_random:
  "categorize_law U (py ''random_doc.pdf'') = py ''general_law''"
  unfolding categorize_law_def lower_random_doc
  by (simp add: py_def)

text \<open>
  Claim C9. \<open>categorize_law\<close> is the first-match-wins lookup of the lowercased file name
  in the ordered rule list civil, criminal, labor, company, traffic, sharia,
  board and grievance, basic and governance, with \<open>general_law\<close> when no rule matches; and
  the three file names of the specification get \<open>labor_law\<close>, \<open>constitutional_law\<close> and
  \<open>general_law\<close>.
\<close>

theorem categorize_law_rules:
  "categorize_law U filename = categorize_spec U filename
   \<and> categorize_law U (py ''KSA_Labor_Law_2020.pdf'') = py ''labor_law''
   \<and> categorize_law U (py ''Basic_Law_of_Governance.pdf'') = py ''constitutional_law''
   \<and> categorize_law U (py ''random_doc.pdf'') = py ''general_law''"
  using categorize_law_eq_spec categorize_law_labor categorize_law_governance
    categorize_law_random by blast

section \<open>Properties of the normalizer\<close>

lemma clean_text_a_hash_b: "clean_text U (py ''a # b'') = py ''a  b''"
  by (simp add: clean_text_def py_def is_space_def match_page_def match_n_of_m_def
      match_lit_def match_digits_def is_digit_def keep_char_def is_word_def
      in_arabic_ranges_def kept_punctuation_def strip_def skip_spaces_def)

lemma clean_text_a_b: "clean_text U (py ''a  b'') = py ''a b''"
  by (simp add: clean_text_def py_def is_space_def match_page_def match_n_of_m_def
      match_lit_def match_digits_def is_digit_def keep_char_def is_word_def
      in_arabic_ranges_def kept_punctuation_def strip_def skip_spaces_def)

text \<open>
  Claim C3 fails on the code at the text \<open>a # b\<close>. The whitespace is collapsed first
  (the step that the source comments as removing excessive whitespace), and the character
  \<open>#\<close> is deleted afterwards, so the result is \<open>a\<close>, two spaces, \<open>b\<close>: two
  whitespace characters stand next to each other in the normalized text. A second pass
  collapses them, so \<open>clean_text\<close> applied twice differs from \<open>clean_text\<close> applied once.
\<close>

theorem clean_text_not_idempotent:
  "clean_text U (py ''a # b'') = py ''a  b''
   \<and> double_space U (clean_text U (py ''a # b''))
   \<and> clean_text U (clean_text U (py ''a # b'')) = py ''a b''
   \<and> clean_text U (clean_text U (py ''a # b'')) \<noteq> clean_text U (py ''a # b'')"
  by (simp add: clean_text_a_hash_b clean_text_a_b) (simp add: py_def is_space_def)


section \<open>Properties of the chunker\<close>

lemma contains_single: "contains [c] s = (c \<in> set s)"
  by (induction s) auto

lemma find_break_found:
  "find_break t i stop = Inr (Some k) \<Longrightarrow> stop < k \<and> k \<le> i"
proof (induction t i stop rule: find_break.induct)
  case (1 t i stop)
  show ?case
  proof (cases "i \<le> stop")
    case True
    with "1.prems" show ?thesis by simp
  next
    case False
    show ?thesis
    proof (cases "getitem t i")
      case (Inl e)
      with False "1.prems" show ?thesis by simp
    next
      case (Inr c)
      show ?thesis
      proof (cases "contains [c] (py ''.!?'')")
        case True
        with False Inr "1.prems" show ?thesis by simp
      next
        case nc: False
        with False Inr "1.prems" have "find_break t (i - 1) stop = Inr (Some k)" by simp
        with "1.IH" [OF False Inr nc] show ?thesis by simp
      qed
    qed
  qed
qed

lemma find_break_no_error:
  "0 \<le> stop \<Longrightarrow> i < int (length t) \<Longrightarrow> find_break t i stop \<noteq> Inl e"
proof (induction t i stop rule: find_break.induct)
  case (1 t i stop)
  show ?case
  proof (cases "i \<le> stop")
    case True
    then show ?thesis by simp
  next
    case False
    with "1.prems" obtain c where c: "getitem t i = Inr c"
      by (auto simp: getitem_def)
    show ?thesis
    proof (cases "contains [c] (py ''.!?'')")
      case True
      with False c show ?thesis by simp
    next
      case nc: False
      from "1.IH" [OF False c nc] "1.prems" have "find_break t (i - 1) stop \<noteq> Inl e" by simp
      with False c nc show ?thesis by simp
    qed
  qed
qed

lemma window_end_progress:
  assumes "good_config chunk_size overlap" "0 \<le> start"
  shows "\<exists>fin. window_end text chunk_size start = Inr fin \<and> start + overlap < fin"
proof (cases "start + chunk_size < int (length text)")
  case False
  with assms show ?thesis by (simp add: window_end_def good_config_def)
next
  case True
  let ?stop = "max (start + chunk_size - 200) start"
  have stop: "0 \<le> ?stop" using assms(2) by simp
  show ?thesis
  proof (cases "find_break text (start + chunk_size) ?stop")
    case (Inl e)
    with find_break_no_error [OF stop True] show ?thesis by blast
  next
    case (Inr r)
    show ?thesis
    proof (cases r)
      case None
      with Inr True assms show ?thesis by (simp add: window_end_def good_config_def)
    next
      case (Some k)
      with Inr find_break_found have "?stop < k" by blast
      with assms have "start + overlap < k + 1" by (auto simp: good_config_def max_def split: if_splits)
      with Inr Some True show ?thesis by (simp add: window_end_def)
    qed
  qed
qed


lemma split_loop_step:
  assumes "start < int (length t)" "window_end t cs start = Inr fin"
  shows "split_loop U t cs ov start chunks =
     (if int (length t) \<le> fin - ov then Some (Inr (chunks @ chunks_of U t [(start, fin)]))
      else split_loop U t cs ov (fin - ov) (chunks @ chunks_of U t [(start, fin)]))"
  using assms by (subst split_loop.simps) (simp add: Let_def chunks_of_def)

lemma window_loop_step:
  assumes "start < int (length t)" "window_end t cs start = Inr fin"
  shows "window_loop t cs ov start acc =
     (if int (length t) \<le> fin - ov then Some (Inr (acc @ [(start, fin)]))
      else window_loop t cs ov (fin - ov) (acc @ [(start, fin)]))"
  using assms by (subst window_loop.simps) (simp add: Let_def)

lemma chunks_of_append: "chunks_of U t (ws @ vs) = chunks_of U t ws @ chunks_of U t vs"
  by (simp add: chunks_of_def)

lemma overlap_linked_Cons:
  "ws \<noteq> [] \<Longrightarrow> overlap_linked ov (w # ws) = (fst (hd ws) = snd w - ov \<and> overlap_linked ov ws)"
  by (cases ws) auto

lemma loops_from:
  assumes good: "good_config cs ov"
  shows "0 \<le> start \<Longrightarrow> start < int (length t) \<Longrightarrow>
     \<exists>ws. ws \<noteq> [] \<and> fst (hd ws) = start
        \<and> window_loop t cs ov start acc = Some (Inr (acc @ ws))
        \<and> split_loop U t cs ov start chunks = Some (Inr (chunks @ chunks_of U t ws))
        \<and> overlap_linked ov ws
        \<and> list_all (\<lambda>w. fst w + ov < snd w) ws
        \<and> (\<forall>j. start \<le> j \<and> j < int (length t) \<longrightarrow> list_ex (in_window j) ws)"
proof (induction "nat (int (length t) - start)" arbitrary: start acc chunks rule: less_induct)
  case less
  from window_end_progress [OF good less.prems(1)]
  obtain fin where fin: "window_end t cs start = Inr fin" and prog: "start + ov < fin"
    by blast
  from good have ov: "0 \<le> ov" by (simp add: good_config_def)
  note sl = split_loop_step [OF less.prems(2) fin, of U ov chunks]
  note wl = window_loop_step [OF less.prems(2) fin, of ov acc]
  show ?case
  proof (cases "int (length t) \<le> fin - ov")
    case True
    have "\<forall>j. start \<le> j \<and> j < int (length t) \<longrightarrow> list_ex (in_window j) [(start, fin)]"
      using True ov by (simp add: in_window_def)
    with True sl wl prog show ?thesis
      by (intro exI [of _ "[(start, fin)]"]) simp
  next
    case False
    let ?s = "fin - ov"
    have m: "nat (int (length t) - ?s) < nat (int (length t) - start)"
      using prog less.prems by simp
    have s0: "0 \<le> ?s" using prog less.prems by simp
    have s1: "?s < int (length t)" using False by simp
    from less.hyps [OF m s0 s1, of "acc @ [(start, fin)]" "chunks @ chunks_of U t [(start, fin)]"]
    obtain ws where ws: "ws \<noteq> []" "fst (hd ws) = ?s"
      "window_loop t cs ov ?s (acc @ [(start, fin)]) = Some (Inr ((acc @ [(start, fin)]) @ ws))"
      "split_loop U t cs ov ?s (chunks @ chunks_of U t [(start, fin)])
         = Some (Inr ((chunks @ chunks_of U t [(start, fin)]) @ chunks_of U t ws))"
      "overlap_linked ov ws" "list_all (\<lambda>w. fst w + ov < snd w) ws"
      "\<forall>j. ?s \<le> j \<and> j < int (length t) \<longrightarrow> list_ex (in_window j) ws"
      by blast
    let ?ws = "(start, fin) # ws"
    have c1: "window_loop t cs ov start acc = Some (Inr (acc @ ?ws))"
      using wl False ws(3) by simp
    have "chunks_of U t ?ws = chunks_of U t [(start, fin)] @ chunks_of U t ws"
      using chunks_of_append [of U t "[(start, fin)]" ws] by simp
    then have c2: "split_loop U t cs ov start chunks = Some (Inr (chunks @ chunks_of U t ?ws))"
      using sl False ws(4) by simp
    have c3: "overlap_linked ov ?ws"
      using ws(1,2,5) by (simp add: overlap_linked_Cons)
    have c4: "list_all (\<lambda>w. fst w + ov < snd w) ?ws"
      using ws(6) prog by simp
    have c5: "\<forall>j. start \<le> j \<and> j < int (length t) \<longrightarrow> list_ex (in_window j) ?ws"
    proof (intro allI impI)
      fix j assume j: "start \<le> j \<and> j < int (length t)"
      show "list_ex (in_window j) ?ws"
      proof (cases "j < fin")
        case True
        with j show ?thesis by (simp add: in_window_def)
      next
        case False
        with ov j have "?s \<le> j \<and> j < int (length t)" by simp
        with ws(7) show ?thesis by simp
      qed
    qed
    from c1 c2 c3 c4 c5 show ?thesis
      by (intro exI [of _ ?ws]) simp
  qed
qed


lemma split_loop_stuck:
  assumes ret: "split_loop U t cs ov start chunks = Some y"
  shows "\<not> (t = py ''aaaaaaaaaaa'' \<and> cs = 10 \<and> ov = 10 \<and> start = 0)"
proof (rule split_loop.raw_induct
    [where P = "\<lambda>U t cs ov start chunks y.
       \<not> (t = py ''aaaaaaaaaaa'' \<and> cs = 10 \<and> ov = 10 \<and> start = 0)", OF _ ret])
  fix f U t cs ov start chunks y
  assume IH: "\<And>U t cs ov start chunks y. f U t cs ov start chunks = Some y \<Longrightarrow>
      \<not> (t = py ''aaaaaaaaaaa'' \<and> cs = 10 \<and> ov = 10 \<and> start = 0)"
    and body: "(if start < int (length t)
      then case window_end t cs start of Inl e \<Rightarrow> Some (Inl e)
           | Inr fin \<Rightarrow>
               let chunk = strip U (slice t start fin);
                   chunks' = if chunk \<noteq> [] then chunks @ [chunk] else chunks;
                   start' = fin - ov
               in if int (length t) \<le> start' then Some (Inr chunks')
                  else f U t cs ov start' chunks'
      else Some (Inr chunks)) = Some y"
  show "\<not> (t = py ''aaaaaaaaaaa'' \<and> cs = 10 \<and> ov = 10 \<and> start = 0)"
  proof
    assume a: "t = py ''aaaaaaaaaaa'' \<and> cs = 10 \<and> ov = 10 \<and> start = 0"
    have we: "window_end (py ''aaaaaaaaaaa'') 10 0 = Inr 10"
      by (simp add: window_end_def py_def getitem_def)
    have len: "int (length (py ''aaaaaaaaaaa'')) = 11" by (simp add: py_def)
    from body a have "\<exists>c'. f U (py ''aaaaaaaaaaa'') 10 10 0 c' = Some y"
      by (auto simp: we len Let_def)
    then obtain c' where "f U (py ''aaaaaaaaaaa'') 10 10 0 c' = Some y" ..
    from IH [OF this] show False by simp
  qed
qed

text \<open>
  Claim C2 fails on the code at the text of eleven letters \<open>a\<close> with \<open>chunk_size = 10\<close>
  and \<open>overlap = 10\<close>: the configuration is neither rejected nor clamped, the window that
  starts at 0 ends at 10, so the next \<open>start\<close> is 0 again, and the call does not return.
\<close>

theorem split_text_into_chunks_diverges:
  "(10::int) < int (length (py ''aaaaaaaaaaa''))
   \<and> window_end (py ''aaaaaaaaaaa'') 10 0 = Inr 10
   \<and> split_text_into_chunks U (py ''aaaaaaaaaaa'') 10 10 = None"
proof -
  have len: "(10::int) < int (length (py ''aaaaaaaaaaa''))" by (simp add: py_def)
  have we: "window_end (py ''aaaaaaaaaaa'') 10 0 = Inr 10"
    by (simp add: window_end_def py_def getitem_def)
  have "split_text_into_chunks U (py ''aaaaaaaaaaa'') 10 10 = None"
  proof (cases "split_text_into_chunks U (py ''aaaaaaaaaaa'') 10 10")
    case None
    then show ?thesis .
  next
    case (Some y)
    then have "split_loop U (py ''aaaaaaaaaaa'') 10 10 0 [] = Some y"
      by (simp add: split_text_into_chunks_def py_def)
    from split_loop_stuck [OF this] show ?thesis by simp
  qed
  with len we show ?thesis by blast
qed

lemma covers_iff:
  "covers ws n = (\<forall>j. 0 \<le> j \<and> j < int n \<longrightarrow> list_ex (in_window j) ws)"
proof
  assume c: "covers ws n"
  show "\<forall>j. 0 \<le> j \<and> j < int n \<longrightarrow> list_ex (in_window j) ws"
  proof (intro allI impI)
    fix j :: int
    assume j: "0 \<le> j \<and> j < int n"
    then have "nat j < n" by linarith
    then have "nat j \<in> set [0..<n]" by simp
    with c have "list_ex (in_window (int (nat j))) ws"
      unfolding covers_def list_all_iff by blast
    with j show "list_ex (in_window j) ws" by simp
  qed
next
  assume "\<forall>j. 0 \<le> j \<and> j < int n \<longrightarrow> list_ex (in_window j) ws"
  then show "covers ws n" by (simp add: covers_def list_all_iff)
qed

lemma find_break_SomeD:
  "find_break t hi lo = Inr (Some i) \<Longrightarrow>
     lo < i \<and> i \<le> hi
     \<and> (\<exists>c. getitem t i = Inr c \<and> contains [c] (py ''.!?''))
     \<and> (\<forall>j. i < j \<and> j \<le> hi \<longrightarrow> (\<exists>c. getitem t j = Inr c \<and> \<not> contains [c] (py ''.!?'')))"
proof (induction t hi lo rule: find_break.induct)
  case (1 t hi lo)
  show ?case
  proof (cases "hi \<le> lo")
    case True
    with "1.prems" show ?thesis by simp
  next
    case False
    show ?thesis
    proof (cases "getitem t hi")
      case (Inl e)
      with False "1.prems" show ?thesis by simp
    next
      case (Inr c)
      show ?thesis
      proof (cases "contains [c] (py ''.!?'')")
        case True
        with False Inr "1.prems" have "i = hi" by simp
        with False Inr True show ?thesis by auto
      next
        case nc: False
        with False Inr "1.prems" have "find_break t (hi - 1) lo = Inr (Some i)" by simp
        from "1.IH" [OF False Inr nc this]
        have ih: "lo < i" "i \<le> hi - 1"
          "\<exists>c. getitem t i = Inr c \<and> contains [c] (py ''.!?'')"
          "\<forall>j. i < j \<and> j \<le> hi - 1 \<longrightarrow> (\<exists>c. getitem t j = Inr c \<and> \<not> contains [c] (py ''.!?''))"
          by blast+
        have "\<forall>j. i < j \<and> j \<le> hi \<longrightarrow> (\<exists>c. getitem t j = Inr c \<and> \<not> contains [c] (py ''.!?''))"
        proof (intro allI impI)
          fix j assume j: "i < j \<and> j \<le> hi"
          show "\<exists>c. getitem t j = Inr c \<and> \<not> contains [c] (py ''.!?'')"
          proof (cases "j = hi")
            case True
            with Inr nc show ?thesis by blast
          next
            case False
            with j have "i < j \<and> j \<le> hi - 1" by simp
            with ih(4) show ?thesis by blast
          qed
        qed
        with ih show ?thesis by simp
      qed
    qed
  qed
qed

lemma find_break_again:
  "lo < i \<Longrightarrow> i \<le> hi \<Longrightarrow> getitem t i = Inr c \<Longrightarrow> contains [c] (py ''.!?'') \<Longrightarrow>
   \<forall>j. i < j \<and> j \<le> hi \<longrightarrow> (\<exists>c. getitem t j = Inr c \<and> \<not> contains [c] (py ''.!?'')) \<Longrightarrow>
   find_break t hi lo = Inr (Some i)"
proof (induction t hi lo rule: find_break.induct)
  case (1 t hi lo)
  from "1.prems"(1,2) have nle: "\<not> hi \<le> lo" by simp
  show ?case
  proof (cases "i = hi")
    case True
    with nle "1.prems"(3,4) show ?thesis by simp
  next
    case False
    with "1.prems"(2) have lt: "i < hi" by simp
    with "1.prems"(5) obtain c' where c': "getitem t hi = Inr c'" "\<not> contains [c'] (py ''.!?'')"
      by blast
    have "find_break t (hi - 1) lo = Inr (Some i)"
      using "1.IH" [OF nle c'(1) c'(2) "1.prems"(1) _ "1.prems"(3,4)] lt "1.prems"(5)
      by simp
    with nle c' show ?thesis by simp
  qed
qed

lemma window_end_cases:
  assumes "window_end t cs s = Inr fin"
  shows "fin = s + cs \<or>
     (s + cs < int (length t) \<and>
      (\<exists>i. find_break t (s + cs) (max (s + cs - 200) s) = Inr (Some i) \<and> fin = i + 1))"
proof (cases "s + cs < int (length t)")
  case False
  with assms show ?thesis by (simp add: window_end_def)
next
  case True
  show ?thesis
  proof (cases "find_break t (s + cs) (max (s + cs - 200) s)")
    case (Inl e)
    with True assms show ?thesis by (simp add: window_end_def)
  next
    case (Inr r)
    with True assms show ?thesis by (cases r) (simp_all add: window_end_def)
  qed
qed

lemma window_end_le:
  assumes "window_end t cs s = Inr fin"
  shows "fin \<le> s + cs + 1"
proof -
  from window_end_cases [OF assms] show ?thesis
  proof
    assume "fin = s + cs"
    then show ?thesis by simp
  next
    assume "s + cs < int (length t) \<and>
      (\<exists>i. find_break t (s + cs) (max (s + cs - 200) s) = Inr (Some i) \<and> fin = i + 1)"
    then obtain i where fb: "find_break t (s + cs) (max (s + cs - 200) s) = Inr (Some i)"
      and fin: "fin = i + 1"
      by blast
    from find_break_SomeD [OF fb] have "i \<le> s + cs" by blast
    with fin show ?thesis by simp
  qed
qed

text \<open>A window that does not move start forward is followed by the same window for ever.\<close>

lemma window_end_repeats:
  assumes we: "window_end t cs s = Inr fin" and nogain: "fin - ov \<le> s" and le: "ov \<le> cs"
  shows "window_end t cs (fin - ov) = Inr fin"
proof -
  from window_end_cases [OF we] show ?thesis
  proof
    assume "fin = s + cs"
    with nogain le have "fin - ov = s" by simp
    with we show ?thesis by simp
  next
    assume "s + cs < int (length t) \<and>
      (\<exists>i. find_break t (s + cs) (max (s + cs - 200) s) = Inr (Some i) \<and> fin = i + 1)"
    then obtain i where n: "s + cs < int (length t)"
      and fb: "find_break t (s + cs) (max (s + cs - 200) s) = Inr (Some i)"
      and fin: "fin = i + 1"
      by blast
    from find_break_SomeD [OF fb] obtain c where
      i: "max (s + cs - 200) s < i" "i \<le> s + cs"
      and c: "getitem t i = Inr c" "contains [c] (py ''.!?'')"
      and above: "\<forall>j. i < j \<and> j \<le> s + cs \<longrightarrow> (\<exists>c. getitem t j = Inr c \<and> \<not> contains [c] (py ''.!?''))"
      by blast
    let ?s = "fin - ov"
    have lo: "max (?s + cs - 200) ?s < i" using i nogain by simp
    have hi: "i \<le> ?s + cs" using fin le by simp
    have hi': "?s + cs \<le> s + cs" using nogain by simp
    from above hi' have above': "\<forall>j. i < j \<and> j \<le> ?s + cs \<longrightarrow>
        (\<exists>c. getitem t j = Inr c \<and> \<not> contains [c] (py ''.!?''))"
      by simp
    from find_break_again [OF lo hi c above']
    have "find_break t (?s + cs) (max (?s + cs - 200) ?s) = Inr (Some i)" .
    moreover have "?s + cs < int (length t)" using hi' n by simp
    ultimately show ?thesis by (simp add: window_end_def fin del: find_break.simps)
  qed
qed

lemma window_loop_fixed_point:
  assumes ret: "window_loop t cs ov s acc = Some res"
  shows "s < int (length t) \<and> window_end t cs s = Inr (s + ov) \<longrightarrow> (\<forall>r. res \<noteq> Inr r)"
proof (rule window_loop.raw_induct
    [where P = "\<lambda>t cs ov s acc res.
       s < int (length t) \<and> window_end t cs s = Inr (s + ov) \<longrightarrow> (\<forall>r. res \<noteq> Inr r)", OF _ ret])
  fix f t cs ov s acc res
  assume IH: "\<And>t cs ov s acc res. f t cs ov s acc = Some res \<Longrightarrow>
      s < int (length t) \<and> window_end t cs s = Inr (s + ov) \<longrightarrow> (\<forall>r. res \<noteq> Inr r)"
    and body: "(if s < int (length t)
      then case window_end t cs s of Inl e \<Rightarrow> Some (Inl e)
           | Inr fin \<Rightarrow>
               let windows' = acc @ [(s, fin)]; start' = fin - ov
               in if int (length t) \<le> start' then Some (Inr windows')
                  else f t cs ov start' windows'
      else Some (Inr acc)) = Some res"
  show "s < int (length t) \<and> window_end t cs s = Inr (s + ov) \<longrightarrow> (\<forall>r. res \<noteq> Inr r)"
  proof
    assume a: "s < int (length t) \<and> window_end t cs s = Inr (s + ov)"
    with body have "f t cs ov s (acc @ [(s, s + ov)]) = Some res"
      by (simp add: Let_def)
    from IH [OF this] a show "\<forall>r. res \<noteq> Inr r" by blast
  qed
qed

lemma window_loop_large_overlap:
  assumes ret: "window_loop t cs ov s acc = Some res"
  shows "s < int (length t) \<and> cs + 1 \<le> ov \<longrightarrow> (\<forall>r. res \<noteq> Inr r)"
proof (rule window_loop.raw_induct
    [where P = "\<lambda>t cs ov s acc res.
       s < int (length t) \<and> cs + 1 \<le> ov \<longrightarrow> (\<forall>r. res \<noteq> Inr r)", OF _ ret])
  fix f t cs ov s acc res
  assume IH: "\<And>t cs ov s acc res. f t cs ov s acc = Some res \<Longrightarrow>
      s < int (length t) \<and> cs + 1 \<le> ov \<longrightarrow> (\<forall>r. res \<noteq> Inr r)"
    and body: "(if s < int (length t)
      then case window_end t cs s of Inl e \<Rightarrow> Some (Inl e)
           | Inr fin \<Rightarrow>
               let windows' = acc @ [(s, fin)]; start' = fin - ov
               in if int (length t) \<le> start' then Some (Inr windows')
                  else f t cs ov start' windows'
      else Some (Inr acc)) = Some res"
  show "s < int (length t) \<and> cs + 1 \<le> ov \<longrightarrow> (\<forall>r. res \<noteq> Inr r)"
  proof
    assume a: "s < int (length t) \<and> cs + 1 \<le> ov"
    show "\<forall>r. res \<noteq> Inr r"
    proof (cases "window_end t cs s")
      case (Inl e)
      with body a show ?thesis by auto
    next
      case (Inr fin)
      from window_end_le [OF Inr] a have nogain: "fin - ov < int (length t)" by simp
      with body a Inr have "f t cs ov (fin - ov) (acc @ [(s, fin)]) = Some res"
        by (simp add: Let_def)
      from IH [OF this] nogain a show ?thesis by blast
    qed
  qed
qed

text \<open>A call that returns has moved start forward in every iteration.\<close>

lemma window_loop_progress:
  assumes ret: "window_loop t cs ov s acc = Some (Inr r)"
    and s: "s < int (length t)" and we: "window_end t cs s = Inr fin"
  shows "s < fin - ov"
proof (rule ccontr)
  assume "\<not> s < fin - ov"
  then have nogain: "fin - ov \<le> s" by simp
  show False
  proof (cases "cs + 1 \<le> ov")
    case True
    with window_loop_large_overlap [OF ret] s show False by blast
  next
    case False
    then have le: "ov \<le> cs" by simp
    from window_loop_step [OF s we, of ov acc] nogain s ret
    have "window_loop t cs ov (fin - ov) (acc @ [(s, fin)]) = Some (Inr r)" by simp
    from window_loop_fixed_point [OF this] window_end_repeats [OF we nogain le] nogain s
    show False by simp
  qed
qed


lemma split_loop_chain:
  assumes ret: "split_loop U t cs ov s chunks = Some res"
  shows "\<forall>r. res = Inr r \<longrightarrow>
     (\<exists>ws. r = chunks @ chunks_of U t ws
        \<and> (\<forall>acc. window_loop t cs ov s acc = Some (Inr (acc @ ws)))
        \<and> (0 \<le> s \<longrightarrow> window_chain (int (length t)) ov s ws))"
proof (rule split_loop.raw_induct
    [where P = "\<lambda>U t cs ov s chunks res. \<forall>r. res = Inr r \<longrightarrow>
     (\<exists>ws. r = chunks @ chunks_of U t ws
        \<and> (\<forall>acc. window_loop t cs ov s acc = Some (Inr (acc @ ws)))
        \<and> (0 \<le> s \<longrightarrow> window_chain (int (length t)) ov s ws))", OF _ ret])
  fix f U t cs ov s chunks res
  assume IH: "\<And>U t cs ov s chunks res. f U t cs ov s chunks = Some res \<Longrightarrow>
      \<forall>r. res = Inr r \<longrightarrow>
       (\<exists>ws. r = chunks @ chunks_of U t ws
          \<and> (\<forall>acc. window_loop t cs ov s acc = Some (Inr (acc @ ws)))
          \<and> (0 \<le> s \<longrightarrow> window_chain (int (length t)) ov s ws))"
    and body: "(if s < int (length t)
      then case window_end t cs s of Inl e \<Rightarrow> Some (Inl e)
           | Inr fin \<Rightarrow>
               let chunk = strip U (slice t s fin);
                   chunks' = if chunk \<noteq> [] then chunks @ [chunk] else chunks;
                   start' = fin - ov
               in if int (length t) \<le> start' then Some (Inr chunks')
                  else f U t cs ov start' chunks'
      else Some (Inr chunks)) = Some res"
  show "\<forall>r. res = Inr r \<longrightarrow>
       (\<exists>ws. r = chunks @ chunks_of U t ws
          \<and> (\<forall>acc. window_loop t cs ov s acc = Some (Inr (acc @ ws)))
          \<and> (0 \<le> s \<longrightarrow> window_chain (int (length t)) ov s ws))"
  proof (intro allI impI)
    fix r assume r: "res = Inr r"
    show "\<exists>ws. r = chunks @ chunks_of U t ws
          \<and> (\<forall>acc. window_loop t cs ov s acc = Some (Inr (acc @ ws)))
          \<and> (0 \<le> s \<longrightarrow> window_chain (int (length t)) ov s ws)"
    proof (cases "s < int (length t)")
      case False
      with body r have "r = chunks" by simp
      moreover from False have "\<forall>acc. window_loop t cs ov s acc = Some (Inr (acc @ []))"
        by (subst window_loop.simps) simp
      moreover from False have "window_chain (int (length t)) ov s []" by simp
      ultimately show ?thesis
        by (intro exI [of _ "[]"]) (simp add: chunks_of_def)
    next
      case True
      show ?thesis
      proof (cases "window_end t cs s")
        case (Inl e)
        with body True r show ?thesis by simp
      next
        case (Inr fin)
        let ?c = "chunks @ chunks_of U t [(s, fin)]"
        from body True Inr
        have body': "(if int (length t) \<le> fin - ov then Some (Inr ?c)
                      else f U t cs ov (fin - ov) ?c) = Some res"
          by (auto simp: Let_def chunks_of_def split: if_splits)
        note wl = window_loop_step [OF True Inr, of ov]
        show ?thesis
        proof (cases "int (length t) \<le> fin - ov")
          case last: True
          with body' r have 1: "r = chunks @ chunks_of U t [(s, fin)]" by simp
          from wl last have 2: "\<forall>acc. window_loop t cs ov s acc = Some (Inr (acc @ [(s, fin)]))"
            by simp
          from last True have 3: "0 \<le> s \<longrightarrow> window_chain (int (length t)) ov s [(s, fin)]"
            by simp
          from 1 2 3 show ?thesis by blast
        next
          case more: False
          with body' have "f U t cs ov (fin - ov) ?c = Some res" by simp
          from IH [OF this] r obtain ws where
            ws: "r = ?c @ chunks_of U t ws"
              "\<forall>acc. window_loop t cs ov (fin - ov) acc = Some (Inr (acc @ ws))"
              "0 \<le> fin - ov \<longrightarrow> window_chain (int (length t)) ov (fin - ov) ws"
            by blast
          let ?ws = "(s, fin) # ws"
          have 1: "r = chunks @ chunks_of U t ?ws"
            using ws(1) chunks_of_append [of U t "[(s, fin)]" ws] by simp
          have 2: "\<forall>acc. window_loop t cs ov s acc = Some (Inr (acc @ ?ws))"
            using wl more ws(2) by simp
          from 2 have "window_loop t cs ov s [] = Some (Inr ([] @ ?ws))" by blast
          from window_loop_progress [OF this True Inr] have prog: "s < fin - ov" .
          have 3: "0 \<le> s \<longrightarrow> window_chain (int (length t)) ov s ?ws"
            using prog ws(3) True by simp
          from 1 2 3 show ?thesis by blast
        qed
      qed
    qed
  qed
qed

lemma window_chain_linked: "window_chain n ov s ws \<Longrightarrow> overlap_linked ov ws"
proof (induction ws arbitrary: s)
  case Nil
  show ?case by simp
next
  case (Cons w ws)
  then show ?case by (cases ws) auto
qed

lemma window_chain_covers:
  "0 \<le> ov \<Longrightarrow> window_chain n ov s ws \<Longrightarrow> s \<le> j \<Longrightarrow> j < n \<Longrightarrow> list_ex (in_window j) ws"
proof (induction ws arbitrary: s)
  case Nil
  then show ?case by simp
next
  case (Cons w ws)
  show ?case
  proof (cases "j < snd w")
    case True
    with Cons.prems show ?thesis by (simp add: in_window_def)
  next
    case False
    with Cons.prems have "snd w - ov \<le> j" by simp
    from Cons.IH [OF Cons.prems(1) _ this Cons.prems(4)] Cons.prems(2) show ?thesis by simp
  qed
qed

lemma slice_nonneg:
  "0 \<le> a \<Longrightarrow> 0 \<le> c \<Longrightarrow> slice t a c = take (nat c - nat a) (drop (nat a) t)"
  by (auto simp: slice_def slice_bound_def Let_def min_def nat_diff_distrib')

lemma slice_split:
  assumes "0 \<le> a" "a \<le> b" "b \<le> c"
  shows "slice t a c = slice t a b @ slice t b c"
proof -
  have "nat c - nat a = (nat b - nat a) + (nat c - nat b)" using assms by simp
  then have "take (nat c - nat a) (drop (nat a) t)
      = take (nat b - nat a) (drop (nat a) t)
        @ take (nat c - nat b) (drop (nat b - nat a) (drop (nat a) t))"
    by (simp only: take_add)
  moreover have "nat b - nat a + nat a = nat b" using assms by simp
  ultimately show ?thesis using assms by (simp add: slice_nonneg)
qed

lemma length_slice_nonneg:
  "0 \<le> a \<Longrightarrow> a \<le> c \<Longrightarrow> a \<le> int (length t) \<Longrightarrow>
   int (length (slice t a c)) = min c (int (length t)) - a"
  by (auto simp: slice_nonneg)

lemma shares_adjacent:
  assumes "0 \<le> ov" "0 \<le> fst w1" "fst w1 + ov < snd w1" "fst w2 = snd w1 - ov"
    "fst w2 < int (length t)" "fst w2 + ov < snd w2"
  shows "shares t ov w1 w2"
proof -
  let ?s1 = "fst w1" and ?e1 = "snd w1" and ?s2 = "fst w2" and ?e2 = "snd w2"
  from assms have o: "0 \<le> ?s1" "?s1 \<le> ?s2" "?s2 \<le> ?e1" "0 \<le> ?s2" "?e1 \<le> ?e2" by simp_all
  have "slice t ?s1 ?e1 = slice t ?s1 ?s2 @ slice t ?s2 ?e1"
    using o by (intro slice_split) simp_all
  then have 1: "suffix (slice t ?s2 ?e1) (slice t ?s1 ?e1)" by (simp add: suffix_def)
  have "slice t ?s2 ?e2 = slice t ?s2 ?e1 @ slice t ?e1 ?e2"
    using o by (intro slice_split) simp_all
  then have 2: "prefix (slice t ?s2 ?e1) (slice t ?s2 ?e2)" by (simp add: prefix_def)
  have "int (length (slice t ?s2 ?e1)) = min ?e1 (int (length t)) - ?s2"
    using o assms(5) by (intro length_slice_nonneg) simp_all
  with assms(4) have 3: "int (length (slice t ?s2 ?e1)) = ov - max 0 (?e1 - int (length t))"
    by simp
  from 1 2 3 show ?thesis by (simp add: shares_def common_text_def)
qed

lemma window_chain_shares:
  "0 \<le> ov \<Longrightarrow> window_chain (int (length t)) ov s ws \<Longrightarrow> all_adjacent (shares t ov) ws"
proof (induction ws arbitrary: s)
  case Nil
  show ?case by simp
next
  case (Cons w1 ws)
  show ?case
  proof (cases ws)
    case Nil
    then show ?thesis by simp
  next
    case (Cons w2 rest)
    with Cons.prems have c: "0 \<le> fst w1" "fst w1 + ov < snd w1"
      "fst w2 = snd w1 - ov" "fst w2 < int (length t)" "fst w2 + ov < snd w2"
      "window_chain (int (length t)) ov (snd w1 - ov) ws"
      by simp_all
    from shares_adjacent [OF Cons.prems(1) c(1) c(2) c(3) c(4) c(5)]
    have "shares t ov w1 w2" .
    with Cons.IH [OF Cons.prems(1) c(6)] Cons show ?thesis by simp
  qed
qed


lemma find_break_no_terminator:
  "\<forall>c \<in> set t. \<not> contains [c] (py ''.!?'') \<Longrightarrow> 0 \<le> lo \<Longrightarrow> hi < int (length t) \<Longrightarrow>
   find_break t hi lo = Inr None"
proof (induction t hi lo rule: find_break.induct)
  case (1 t hi lo)
  show ?case
  proof (cases "hi \<le> lo")
    case True
    then show ?thesis by simp
  next
    case False
    with "1.prems" have g: "getitem t hi = Inr (t ! nat hi)" by (simp add: getitem_def)
    from False "1.prems" have "t ! nat hi \<in> set t" by simp
    with "1.prems"(1) have nc: "\<not> contains [t ! nat hi] (py ''.!?'')" by blast
    from "1.IH" [OF False g nc "1.prems"(1,2)] "1.prems"(3)
    have "find_break t (hi - 1) lo = Inr None" by simp
    with False g nc show ?thesis by simp
  qed
qed

lemma letters_window_end:
  "window_end (replicate 2500 97) 1000 0 = Inr 1000"
  "window_end (replicate 2500 97) 1000 800 = Inr 1800"
  "window_end (replicate 2500 97) 1000 1600 = Inr 2600"
  "window_end (replicate 2500 97) 1000 2400 = Inr 3400"
proof -
  have nt: "\<forall>c \<in> set (replicate 2500 (97::nat)). \<not> contains [c] (py ''.!?'')"
    by (simp add: py_def)
  have "find_break (replicate 2500 97) 1000 (max (0 + 1000 - 200) 0) = Inr None"
    by (rule find_break_no_terminator [OF nt]) simp_all
  then show "window_end (replicate 2500 97) 1000 0 = Inr 1000"
    by (simp add: window_end_def del: find_break.simps)
  have "find_break (replicate 2500 97) 1800 (max (800 + 1000 - 200) 800) = Inr None"
    by (rule find_break_no_terminator [OF nt]) simp_all
  then show "window_end (replicate 2500 97) 1000 800 = Inr 1800"
    by (simp add: window_end_def del: find_break.simps)
  show "window_end (replicate 2500 97) 1000 1600 = Inr 2600"
    by (simp add: window_end_def del: find_break.simps)
  show "window_end (replicate 2500 97) 1000 2400 = Inr 3400"
    by (simp add: window_end_def del: find_break.simps)
qed

lemma letters_chunk:
  "0 \<le> a \<Longrightarrow> a < 2500 \<Longrightarrow> a < b \<Longrightarrow>
   chunks_of U (replicate 2500 97) [(a, b)] = [replicate (min (nat b) 2500 - nat a) 97]"
  by (auto simp: chunks_of_def slice_nonneg strip_def is_space_def min_def)

lemma letters_windows:
  "split_windows (replicate 2500 97) 1000 200
     = Some (Inr [(0, 1000), (800, 1800), (1600, 2600), (2400, 3400)])"
proof -
  have len: "int (length (replicate 2500 (97::nat))) = 2500" by simp
  have "window_loop (replicate 2500 97) 1000 200 2400 [(0, 1000), (800, 1800), (1600, 2600)]
      = Some (Inr [(0, 1000), (800, 1800), (1600, 2600), (2400, 3400)])"
    by (subst window_loop_step [OF _ letters_window_end(4)]) simp_all
  then have "window_loop (replicate 2500 97) 1000 200 1600 [(0, 1000), (800, 1800)]
      = Some (Inr [(0, 1000), (800, 1800), (1600, 2600), (2400, 3400)])"
    by (subst window_loop_step [OF _ letters_window_end(3)]) simp_all
  then have "window_loop (replicate 2500 97) 1000 200 800 [(0, 1000)]
      = Some (Inr [(0, 1000), (800, 1800), (1600, 2600), (2400, 3400)])"
    by (subst window_loop_step [OF _ letters_window_end(2)]) simp_all
  then have "window_loop (replicate 2500 97) 1000 200 0 []
      = Some (Inr [(0, 1000), (800, 1800), (1600, 2600), (2400, 3400)])"
    by (subst window_loop_step [OF _ letters_window_end(1)]) simp_all
  then show ?thesis by (simp add: split_windows_def)
qed

lemma letters_chunks:
  "split_text_into_chunks U (replicate 2500 97) 1000 200
     = Some (Inr [replicate 1000 97, replicate 1000 97, replicate 900 97, replicate 100 97])"
proof -
  have "split_loop U (replicate 2500 97) 1000 200 2400
         [replicate 1000 97, replicate 1000 97, replicate 900 97]
      = Some (Inr [replicate 1000 97, replicate 1000 97, replicate 900 97, replicate 100 97])"
    by (subst split_loop_step [OF _ letters_window_end(4)]) (simp_all add: letters_chunk)
  then have "split_loop U (replicate 2500 97) 1000 200 1600 [replicate 1000 97, replicate 1000 97]
      = Some (Inr [replicate 1000 97, replicate 1000 97, replicate 900 97, replicate 100 97])"
    by (subst split_loop_step [OF _ letters_window_end(3)]) (simp_all add: letters_chunk)
  then have "split_loop U (replicate 2500 97) 1000 200 800 [replicate 1000 97]
      = Some (Inr [replicate 1000 97, replicate 1000 97, replicate 900 97, replicate 100 97])"
    by (subst split_loop_step [OF _ letters_window_end(2)]) (simp_all add: letters_chunk)
  then have "split_loop U (replicate 2500 97) 1000 200 0 []
      = Some (Inr [replicate 1000 97, replicate 1000 97, replicate 900 97, replicate 100 97])"
    by (subst split_loop_step [OF _ letters_window_end(1)]) (simp_all add: letters_chunk)
  then show ?thesis by (simp add: split_text_into_chunks_def)
qed

lemma sentences_chunks:
  "split_text_into_chunks ascii_ucd (py ''abc. efghi. klmnopq'') 5 1
     = Some (Inr [py ''abc.'', py ''. efg'', py ''ghi.'', py ''. klm'', py ''mnopq'', py ''q''])"
  by (simp add: split_text_into_chunks_def split_loop.simps window_end_def py_def Let_def
      slice_def slice_bound_def strip_def is_space_def getitem_def)

text \<open>
  Claim C6, as the code has it. A text no longer than \<open>chunk_size\<close> comes back as the one
  chunk. For a longer text and an overlap that is not negative, whenever the call returns
  its chunks, they are the stripped, non-empty slices of the windows of the loop; the first
  window starts at 0, every window starts inside the text and is longer than the overlap,
  and each window after the first starts exactly \<open>overlap\<close> characters before the end
  position of the one before it. The slices of two consecutive windows have in common the
  text from the start of the second to the end of the first: \<open>overlap\<close> characters when the
  first window ends inside the text, and \<open>overlap - (end - len(text))\<close> when it reaches
  past the end of the text. Every position of the text lies in some window. And the call
  does return, for every text, when \<open>0 \<le> overlap < chunk_size\<close> and
  \<open>overlap < max (chunk_size - 198) 2\<close>, as with the defaults 1000 and 200.
\<close>

theorem split_text_into_chunks_windows:
  "(int (length text) \<le> chunk_size \<longrightarrow>
      split_text_into_chunks U text chunk_size overlap = Some (Inr [text]))
   \<and> (chunk_size < int (length text) \<and> 0 \<le> overlap
       \<and> split_text_into_chunks U text chunk_size overlap = Some (Inr chunks) \<longrightarrow>
        (\<exists>ws. split_windows text chunk_size overlap = Some (Inr ws)
           \<and> chunks = chunks_of U text ws
           \<and> window_chain (int (length text)) overlap 0 ws
           \<and> overlap_linked overlap ws
           \<and> all_adjacent (shares text overlap) ws
           \<and> covers ws (length text)))
   \<and> (chunk_size < int (length text) \<and> good_config chunk_size overlap \<longrightarrow>
        (\<exists>chunks. split_text_into_chunks U text chunk_size overlap = Some (Inr chunks)))"
proof (intro conjI impI)
  assume "int (length text) \<le> chunk_size"
  then show "split_text_into_chunks U text chunk_size overlap = Some (Inr [text])"
    by (simp add: split_text_into_chunks_def)
next
  assume a: "chunk_size < int (length text) \<and> 0 \<le> overlap
       \<and> split_text_into_chunks U text chunk_size overlap = Some (Inr chunks)"
  then have ov: "0 \<le> overlap"
    and ret: "split_loop U text chunk_size overlap 0 [] = Some (Inr chunks)"
    by (auto simp: split_text_into_chunks_def split: if_splits)
  from split_loop_chain [OF ret] obtain ws where
    ws: "chunks = [] @ chunks_of U text ws"
      "\<forall>acc. window_loop text chunk_size overlap 0 acc = Some (Inr (acc @ ws))"
      "window_chain (int (length text)) overlap 0 ws"
    by auto
  from ws(2) have 1: "split_windows text chunk_size overlap = Some (Inr ws)"
    by (simp add: split_windows_def)
  from ws(1) have 2: "chunks = chunks_of U text ws" by simp
  from ws(3) have 3: "overlap_linked overlap ws" by (rule window_chain_linked)
  from ov ws(3) have 4: "all_adjacent (shares text overlap) ws" by (rule window_chain_shares)
  have 5: "covers ws (length text)"
    unfolding covers_iff using window_chain_covers [OF ov ws(3)] by blast
  from 1 2 ws(3) 3 4 5
  show "\<exists>ws. split_windows text chunk_size overlap = Some (Inr ws)
           \<and> chunks = chunks_of U text ws
           \<and> window_chain (int (length text)) overlap 0 ws
           \<and> overlap_linked overlap ws
           \<and> all_adjacent (shares text overlap) ws
           \<and> covers ws (length text)"
    by blast
next
  assume a: "chunk_size < int (length text) \<and> good_config chunk_size overlap"
  then have good: "good_config chunk_size overlap" and long: "chunk_size < int (length text)"
    by simp_all
  from good long have pos: "(0::int) < int (length text)"
    unfolding good_config_def by linarith
  from loops_from [OF good order.refl pos, of "[]" U "[]"]
  obtain ws where "split_loop U text chunk_size overlap 0 [] = Some (Inr ([] @ chunks_of U text ws))"
    by blast
  with long show "\<exists>chunks. split_text_into_chunks U text chunk_size overlap = Some (Inr chunks)"
    by (simp add: split_text_into_chunks_def)
qed

theorem split_text_into_chunks_windows_witness:
  "split_text_into_chunks ascii_ucd (py ''ab'') 5 1 = Some (Inr [py ''ab''])
   \<and> (5::int) < int (length (py ''abc. efghi. klmnopq'')) \<and> good_config 5 1
   \<and> split_text_into_chunks ascii_ucd (py ''abc. efghi. klmnopq'') 5 1
       = Some (Inr [py ''abc.'', py ''. efg'', py ''ghi.'', py ''. klm'', py ''mnopq'', py ''q''])
   \<and> (\<exists>ws. split_windows (py ''abc. efghi. klmnopq'') 5 1 = Some (Inr ws)
         \<and> [py ''abc.'', py ''. efg'', py ''ghi.'', py ''. klm'', py ''mnopq'', py ''q'']
             = chunks_of ascii_ucd (py ''abc. efghi. klmnopq'') ws
         \<and> window_chain (int (length (py ''abc. efghi. klmnopq''))) 1 0 ws
         \<and> overlap_linked 1 ws
         \<and> all_adjacent (shares (py ''abc. efghi. klmnopq'') 1) ws
         \<and> covers ws (length (py ''abc. efghi. klmnopq'')))"
proof -
  have short: "int (length (py ''ab'')) \<le> 5" by (simp add: py_def)
  have long: "(5::int) < int (length (py ''abc. efghi. klmnopq''))" by (simp add: py_def)
  have good: "good_config 5 1" by (simp add: good_config_def)
  have pos: "(0::int) \<le> 1" by simp
  from split_text_into_chunks_windows [of "py ''ab''" 5 ascii_ucd 1] short
  have 1: "split_text_into_chunks ascii_ucd (py ''ab'') 5 1 = Some (Inr [py ''ab''])"
    by blast
  from split_text_into_chunks_windows [of "py ''abc. efghi. klmnopq''" 5 ascii_ucd 1
      "[py ''abc.'', py ''. efg'', py ''ghi.'', py ''. klm'', py ''mnopq'', py ''q'']"]
    long pos sentences_chunks
  have 2: "\<exists>ws. split_windows (py ''abc. efghi. klmnopq'') 5 1 = Some (Inr ws)
         \<and> [py ''abc.'', py ''. efg'', py ''ghi.'', py ''. klm'', py ''mnopq'', py ''q'']
             = chunks_of ascii_ucd (py ''abc. efghi. klmnopq'') ws
         \<and> window_chain (int (length (py ''abc. efghi. klmnopq''))) 1 0 ws
         \<and> overlap_linked 1 ws
         \<and> all_adjacent (shares (py ''abc. efghi. klmnopq'') 1) ws
         \<and> covers ws (length (py ''abc. efghi. klmnopq''))"
    by blast
  from 1 long good sentences_chunks 2 show ?thesis by blast
qed

text \<open>
  Claim C6, as stated, fails with the defaults: for a text of 2500 letters, chunk size 1000
  and overlap 200, the windows are \<open>(0, 1000)\<close>, \<open>(800, 1800)\<close>, \<open>(1600, 2600)\<close> and
  \<open>(2400, 3400)\<close>, and there are four chunks, of 1000, 1000, 900 and 100 characters. The
  third window reaches past the end of the text, so the last chunk has only 100 characters
  in common with the one before it, fewer than the overlap of 200.
\<close>

theorem split_text_into_chunks_short_overlap:
  "(1000::int) < int (length (replicate 2500 (97::nat)))
   \<and> split_text_into_chunks ascii_ucd (replicate 2500 97) 1000 200
       = Some (Inr [replicate 1000 97, replicate 1000 97, replicate 900 97, replicate 100 97])
   \<and> split_windows (replicate 2500 97) 1000 200
       = Some (Inr [(0, 1000), (800, 1800), (1600, 2600), (2400, 3400)])
   \<and> common_text (replicate 2500 97) (1600, 2600) (2400, 3400) = replicate 100 97
   \<and> int (length (replicate 100 (97::nat))) < 200"
  by (simp add: letters_chunks letters_windows common_text_def slice_nonneg)


section \<open>Properties of retrieval\<close>

lemma sorted_desc_Nil: "sorted_desc []"
  by (simp add: sorted_desc_def)

lemma sorted_desc_sort: "sorted_desc (sort_by_score ds)"
proof -
  have "sorted (map (\<lambda>d. - doc_score d) (sort_key (\<lambda>d. - doc_score d) ds))"
    by (rule sorted_sort_key)
  then show ?thesis
    by (simp add: sorted_desc_def sort_by_score_def sorted_map)
qed

lemma slice_0_take: "slice xs 0 k = take (nat (slice_bound (int (length xs)) k)) xs"
  by (simp add: slice_def slice_bound_def Let_def)

lemma sorted_desc_slice: "sorted_desc ds \<Longrightarrow> sorted_desc (slice ds 0 k)"
  by (simp add: slice_0_take sorted_desc_def sorted_wrt_take)

lemma length_slice_0: "0 \<le> k \<Longrightarrow> int (length (slice xs 0 k)) \<le> k"
  by (simp add: slice_0_take slice_bound_def)

lemma get_relevant_documents_cases:
  "get_relevant_documents U S query top_k law_filter = Inr []
   \<or> (\<exists>ds. get_relevant_documents U S query top_k law_filter
          = Inr (slice (sort_by_score ds) 0 top_k))"
  by (auto simp: get_relevant_documents_def try_except_def split: option.splits sum.splits)

lemma get_relevant_documents_no_store:
  "qdrant_client S = None \<Longrightarrow> get_relevant_documents U S query top_k law_filter = Inr []"
  by (simp add: get_relevant_documents_def)

lemma get_relevant_documents_no_embedder:
  "embedder S = None \<Longrightarrow> get_relevant_documents U S query top_k law_filter = Inr []"
  by (simp add: get_relevant_documents_def split: option.splits)

lemma get_relevant_documents_embed_fails:
  "qdrant_client S = Some search \<Longrightarrow> embedder S = Some encode \<Longrightarrow> encode query = Inl e \<Longrightarrow>
   get_relevant_documents U S query top_k law_filter = Inr []"
  by (simp add: get_relevant_documents_def try_except_def)

lemma get_relevant_documents_searched:
  assumes "qdrant_client S = Some search" "embedder S = Some encode" "encode query = Inr v"
  shows "get_relevant_documents U S query top_k law_filter =
     Inr (slice (sort_by_score
        ((case search (py ''ksa_legal_docs'') v (top_k * 3) of
            Inl e \<Rightarrow> [] | Inr pdf_results \<Rightarrow> pdf_docs U top_k law_filter pdf_results)
         @ (case search (py ''ksa_cases'') v top_k of
            Inl e \<Rightarrow> [] | Inr case_results \<Rightarrow> map case_doc case_results))) 0 top_k)"
  using assms
  by (simp add: get_relevant_documents_def try_except_def search_pdfs_def search_cases_def
      split: sum.splits)

lemma sample_allowed:
  "lower U (py ''sharia'') = py ''sharia''"
  "allowed_law_types U (py ''sharia'') = [py ''sharia_law'', py ''islamic_law'']"
  by (simp_all add: allowed_law_types_def LAW_TYPE_MAPPING_def lower_def ascii_lower_def py_def)

lemma sample_passes:
  "\<not> passes_filter U (py ''sharia'') labor_hit"
  "passes_filter U (py ''sharia'') sharia_hit"
  unfolding passes_filter_def sample_allowed
  by (simp_all add: labor_hit_def sharia_hit_def dict_get_def lower_def ascii_lower_def py_def)

lemma sample_scores:
  "doc_score (pdf_doc labor_hit) = 0.9" "doc_score (pdf_doc sharia_hit) = 0.5"
  "doc_score (case_doc case_hit) = 0.7"
  by (simp_all add: pdf_doc_def case_doc_def labor_hit_def sharia_hit_def case_hit_def)

lemma sample_pdf_docs:
  "pdf_docs U 5 (py ''sharia'') [labor_hit, sharia_hit]
     = [pdf_doc sharia_hit, pdf_doc labor_hit, pdf_doc sharia_hit]"
  by (simp add: pdf_docs_def sample_passes slice_def slice_bound_def)

lemma sample_store_eval:
  "sample_store (py ''ksa_legal_docs'') v k = Inr [labor_hit, sharia_hit]"
  "sample_store (py ''ksa_cases'') v k = Inr [case_hit]"
  "articles_down (py ''ksa_legal_docs'') v k = Inl (PyException (py ''timeout''))"
  "articles_down (py ''ksa_cases'') v k = Inr [case_hit]"
  "cases_down (py ''ksa_legal_docs'') v k = Inr [labor_hit, sharia_hit]"
  "cases_down (py ''ksa_cases'') v k = Inl (PyException (py ''timeout''))"
  by (simp_all add: sample_store_def articles_down_def cases_down_def py_def)

lemma sample_result:
  "get_relevant_documents U sample_services (py ''zakat'') 5 (py ''sharia'')
     = Inr [pdf_doc labor_hit, case_doc case_hit, pdf_doc sharia_hit, pdf_doc sharia_hit]"
proof -
  have "get_relevant_documents U sample_services (py ''zakat'') 5 (py ''sharia'')
     = Inr (slice (sort_by_score
          [pdf_doc sharia_hit, pdf_doc labor_hit, pdf_doc sharia_hit, case_doc case_hit]) 0 5)"
    by (subst get_relevant_documents_searched
          [of sample_services sample_store sample_encode _ "[1, 0]"])
       (simp_all add: sample_services_def sample_encode_def sample_store_eval sample_pdf_docs)
  also have "sort_by_score
          [pdf_doc sharia_hit, pdf_doc labor_hit, pdf_doc sharia_hit, case_doc case_hit]
     = [pdf_doc labor_hit, case_doc case_hit, pdf_doc sharia_hit, pdf_doc sharia_hit]"
    by (simp add: sort_by_score_def sample_scores)
  finally show ?thesis by (simp add: slice_def slice_bound_def)
qed

text \<open>
  Claim C1 fails on the code: after the filtered hits, the first \<open>try\<close> block appends
  every hit of the articles collection again, unfiltered. With the filter \<open>sharia\<close> and a
  store whose articles are one \<open>labor_law\<close> chunk and one \<open>sharia_law\<close> chunk, the
  \<open>labor_law\<close> chunk, which the filter rejects, is the first entry of the returned list.
\<close>

theorem get_relevant_documents_returns_unfiltered:
  "get_relevant_documents U sample_services (py ''zakat'') 5 (py ''sharia'')
     = Inr [pdf_doc labor_hit, case_doc case_hit, pdf_doc sharia_hit, pdf_doc sharia_hit]
   \<and> \<not> passes_filter U (py ''sharia'') labor_hit
   \<and> doc_source (pdf_doc labor_hit) = py ''pdf''
   \<and> doc_law_type (pdf_doc labor_hit) = py ''labor_law''"
  by (simp add: sample_result sample_passes)
     (simp add: pdf_doc_def labor_hit_def dict_get_def py_def)

text \<open>
  Claim C7. \<open>get_relevant_documents\<close> returns a list that is sorted by score, highest
  first, and that has at most \<open>top_k\<close> entries (for a \<open>top_k\<close> that is a count, that is,
  not negative); when the query is embedded, the list is the first \<open>top_k\<close> entries of the
  sorted concatenation of the article results and the case results.
\<close>

theorem get_relevant_documents_sorted_top_k:
  "(\<exists>ds. get_relevant_documents U S query top_k law_filter = Inr ds
       \<and> sorted_desc ds \<and> (0 \<le> top_k \<longrightarrow> int (length ds) \<le> top_k))
   \<and> (\<forall>search encode v.
         qdrant_client S = Some search \<and> embedder S = Some encode \<and> encode query = Inr v \<longrightarrow>
         get_relevant_documents U S query top_k law_filter =
           Inr (slice (sort_by_score
             ((case search (py ''ksa_legal_docs'') v (top_k * 3) of
                 Inl e \<Rightarrow> [] | Inr pdf_results \<Rightarrow> pdf_docs U top_k law_filter pdf_results)
              @ (case search (py ''ksa_cases'') v top_k of
                 Inl e \<Rightarrow> [] | Inr case_results \<Rightarrow> map case_doc case_results))) 0 top_k))"
proof (intro conjI allI impI)
  show "\<exists>ds. get_relevant_documents U S query top_k law_filter = Inr ds
       \<and> sorted_desc ds \<and> (0 \<le> top_k \<longrightarrow> int (length ds) \<le> top_k)"
    using get_relevant_documents_cases [of U S query top_k law_filter]
    by (auto simp: sorted_desc_slice sorted_desc_sort length_slice_0 sorted_desc_Nil)
next
  fix search encode v
  assume "qdrant_client S = Some search \<and> embedder S = Some encode \<and> encode query = Inr v"
  then show "get_relevant_documents U S query top_k law_filter =
           Inr (slice (sort_by_score
             ((case search (py ''ksa_legal_docs'') v (top_k * 3) of
                 Inl e \<Rightarrow> [] | Inr pdf_results \<Rightarrow> pdf_docs U top_k law_filter pdf_results)
              @ (case search (py ''ksa_cases'') v top_k of
                 Inl e \<Rightarrow> [] | Inr case_results \<Rightarrow> map case_doc case_results))) 0 top_k)"
    using get_relevant_documents_searched by blast
qed

theorem get_relevant_documents_sorted_top_k_witness:
  "get_relevant_documents ascii_ucd sample_services (py ''zakat'') 2 (py ''sharia'')
     = Inr [pdf_doc labor_hit, case_doc case_hit]
   \<and> sorted_desc [pdf_doc labor_hit, case_doc case_hit]
   \<and> int (length [pdf_doc labor_hit, case_doc case_hit]) \<le> 2"
proof -
  let ?r = "get_relevant_documents ascii_ucd sample_services (py ''zakat'') 2 (py ''sharia'')"
  note t = get_relevant_documents_sorted_top_k
    [of ascii_ucd sample_services "py ''zakat''" 2 "py ''sharia''"]
  have s: "qdrant_client sample_services = Some sample_store
      \<and> embedder sample_services = Some sample_encode
      \<and> sample_encode (py ''zakat'') = Inr [1, 0]"
    by (simp add: sample_services_def sample_encode_def)
  have p: "pdf_docs ascii_ucd 2 (py ''sharia'') [labor_hit, sharia_hit]
     = [pdf_doc sharia_hit, pdf_doc labor_hit, pdf_doc sharia_hit]"
    by (simp add: pdf_docs_def sample_passes slice_def slice_bound_def)
  from t s have "?r = Inr (slice (sort_by_score
             ((case sample_store (py ''ksa_legal_docs'') [1, 0] (2 * 3) of
                 Inl e \<Rightarrow> []
               | Inr pdf_results \<Rightarrow> pdf_docs ascii_ucd 2 (py ''sharia'') pdf_results)
              @ (case sample_store (py ''ksa_cases'') [1, 0] 2 of
                 Inl e \<Rightarrow> [] | Inr case_results \<Rightarrow> map case_doc case_results))) 0 2)"
    by blast
  then have r: "?r = Inr [pdf_doc labor_hit, case_doc case_hit]"
    by (simp add: sample_store_eval p sort_by_score_def sample_scores slice_def
        slice_bound_def)
  from t obtain ds where "?r = Inr ds" "sorted_desc ds" "0 \<le> (2::int) \<longrightarrow> int (length ds) \<le> 2"
    by blast
  with r show ?thesis by simp
qed

text \<open>
  Claim C8. \<open>get_relevant_documents\<close> always returns a list and never an exception.
  Without the vector store or without the embedder the list is empty, and so it is when
  embedding the query raises. When the search of one collection raises, the result is what
  the other collection gives: the sorted case results, cut to \<open>top_k\<close>, when the articles
  search fails, and the sorted article results, cut to \<open>top_k\<close>, when the cases search
  fails.
\<close>

theorem get_relevant_documents_never_raises:
  "(\<exists>ds. get_relevant_documents U S query top_k law_filter = Inr ds)
   \<and> (qdrant_client S = None \<or> embedder S = None \<longrightarrow>
        get_relevant_documents U S query top_k law_filter = Inr [])
   \<and> (\<forall>search encode e.
         qdrant_client S = Some search \<and> embedder S = Some encode \<and> encode query = Inl e \<longrightarrow>
         get_relevant_documents U S query top_k law_filter = Inr [])
   \<and> (\<forall>search encode v e case_results.
         qdrant_client S = Some search \<and> embedder S = Some encode \<and> encode query = Inr v
         \<and> search (py ''ksa_legal_docs'') v (top_k * 3) = Inl e
         \<and> search (py ''ksa_cases'') v top_k = Inr case_results \<longrightarrow>
         get_relevant_documents U S query top_k law_filter =
           Inr (slice (sort_by_score (map case_doc case_results)) 0 top_k))
   \<and> (\<forall>search encode v e pdf_results.
         qdrant_client S = Some search \<and> embedder S = Some encode \<and> encode query = Inr v
         \<and> search (py ''ksa_legal_docs'') v (top_k * 3) = Inr pdf_results
         \<and> search (py ''ksa_cases'') v top_k = Inl e \<longrightarrow>
         get_relevant_documents U S query top_k law_filter =
           Inr (slice (sort_by_score (pdf_docs U top_k law_filter pdf_results)) 0 top_k))"
proof (intro conjI allI impI)
  show "\<exists>ds. get_relevant_documents U S query top_k law_filter = Inr ds"
    using get_relevant_documents_cases [of U S query top_k law_filter] by blast
next
  assume "qdrant_client S = None \<or> embedder S = None"
  then show "get_relevant_documents U S query top_k law_filter = Inr []"
    using get_relevant_documents_no_store get_relevant_documents_no_embedder by blast
next
  fix search encode e
  assume "qdrant_client S = Some search \<and> embedder S = Some encode \<and> encode query = Inl e"
  then show "get_relevant_documents U S query top_k law_filter = Inr []"
    using get_relevant_documents_embed_fails by blast
next
  fix search encode v e case_results
  assume a: "qdrant_client S = Some search \<and> embedder S = Some encode \<and> encode query = Inr v
         \<and> search (py ''ksa_legal_docs'') v (top_k * 3) = Inl e
         \<and> search (py ''ksa_cases'') v top_k = Inr case_results"
  then show "get_relevant_documents U S query top_k law_filter =
           Inr (slice (sort_by_score (map case_doc case_results)) 0 top_k)"
    using get_relevant_documents_searched [of S search encode query v U top_k law_filter]
    by simp
next
  fix search encode v e pdf_results
  assume a: "qdrant_client S = Some search \<and> embedder S = Some encode \<and> encode query = Inr v
         \<and> search (py ''ksa_legal_docs'') v (top_k * 3) = Inr pdf_results
         \<and> search (py ''ksa_cases'') v top_k = Inl e"
  then show "get_relevant_documents U S query top_k law_filter =
           Inr (slice (sort_by_score (pdf_docs U top_k law_filter pdf_results)) 0 top_k)"
    using get_relevant_documents_searched [of S search encode query v U top_k law_filter]
    by simp
qed

theorem get_relevant_documents_never_raises_witness:
  "get_relevant_documents ascii_ucd backend_down (py ''zakat'') 5 (py ''sharia'') = Inr []
   \<and> get_relevant_documents ascii_ucd
        (sample_services\<lparr>qdrant_client := Some articles_down\<rparr>) (py ''zakat'') 5 (py ''sharia'')
       = Inr [case_doc case_hit]
   \<and> get_relevant_documents ascii_ucd
        (sample_services\<lparr>qdrant_client := Some cases_down\<rparr>) (py ''zakat'') 5 (py ''sharia'')
       = Inr [pdf_doc labor_hit, pdf_doc sharia_hit, pdf_doc sharia_hit]"
proof -
  note t1 = get_relevant_documents_never_raises
    [of ascii_ucd backend_down "py ''zakat''" 5 "py ''sharia''"]
  have "qdrant_client backend_down = None" by (simp add: backend_down_def)
  with t1 have 1: "get_relevant_documents ascii_ucd backend_down (py ''zakat'') 5 (py ''sharia'')
      = Inr []"
    by blast
  let ?A = "sample_services\<lparr>qdrant_client := Some articles_down\<rparr>"
  note t2 = get_relevant_documents_never_raises [of ascii_ucd ?A "py ''zakat''" 5 "py ''sharia''"]
  have "qdrant_client ?A = Some articles_down \<and> embedder ?A = Some sample_encode
      \<and> sample_encode (py ''zakat'') = Inr [1, 0]
      \<and> articles_down (py ''ksa_legal_docs'') [1, 0] (5 * 3) = Inl (PyException (py ''timeout''))
      \<and> articles_down (py ''ksa_cases'') [1, 0] 5 = Inr [case_hit]"
    by (simp add: sample_services_def sample_encode_def sample_store_eval)
  with t2 have "get_relevant_documents ascii_ucd ?A (py ''zakat'') 5 (py ''sharia'')
      = Inr (slice (sort_by_score (map case_doc [case_hit])) 0 5)"
    by blast
  then have 2: "get_relevant_documents ascii_ucd ?A (py ''zakat'') 5 (py ''sharia'')
      = Inr [case_doc case_hit]"
    by (simp add: sort_by_score_def slice_def slice_bound_def)
  let ?C = "sample_services\<lparr>qdrant_client := Some cases_down\<rparr>"
  note t3 = get_relevant_documents_never_raises [of ascii_ucd ?C "py ''zakat''" 5 "py ''sharia''"]
  have "qdrant_client ?C = Some cases_down \<and> embedder ?C = Some sample_encode
      \<and> sample_encode (py ''zakat'') = Inr [1, 0]
      \<and> cases_down (py ''ksa_legal_docs'') [1, 0] (5 * 3) = Inr [labor_hit, sharia_hit]
      \<and> cases_down (py ''ksa_cases'') [1, 0] 5 = Inl (PyException (py ''timeout''))"
    by (simp add: sample_services_def sample_encode_def sample_store_eval)
  with t3 have "get_relevant_documents ascii_ucd ?C (py ''zakat'') 5 (py ''sharia'')
      = Inr (slice (sort_by_score (pdf_docs ascii_ucd 5 (py ''sharia'') [labor_hit, sharia_hit]))
          0 5)"
    by blast
  then have 3: "get_relevant_documents ascii_ucd ?C (py ''zakat'') 5 (py ''sharia'')
      = Inr [pdf_doc labor_hit, pdf_doc sharia_hit, pdf_doc sharia_hit]"
    by (simp add: sample_pdf_docs sort_by_score_def sample_scores slice_def slice_bound_def)
  from 1 2 3 show ?thesis by blast
qed

text \<open>
  Claim C10. \<open>get_relevant_cases(query, top_k)\<close> returns what
  \<open>get_relevant_documents(query, top_k, "hybrid")\<close> returns: the call inside it leaves
  \<open>law_filter\<close> out, and the default of \<open>law_filter\<close> is \<open>"hybrid"\<close>.
\<close>

theorem get_relevant_cases_is_hybrid:
  "get_relevant_cases U S query top_k = get_relevant_documents U S query top_k (py ''hybrid'')"
  by (simp add: get_relevant_cases_def call_get_relevant_documents_def)


section \<open>Properties of the answer composer\<close>

lemma contains_prefix: "prefix sub s \<Longrightarrow> contains sub s"
  by (cases s) auto

lemma contains_append: "contains sub (xs @ sub @ ys)"
  by (induction xs) (auto simp: contains_prefix)

lemma contains_at_end: "contains sub (xs @ sub)"
  using contains_append [of sub xs "[]"] by simp

lemma chat_prompt_returns: "\<exists>prompt. chat_prompt U S query law_filter = Inr prompt"
  using get_relevant_documents_cases [of U S query 5 law_filter]
  by (auto simp: chat_prompt_def)

lemma ask_chatbot_no_client:
  "openai_client S = None \<Longrightarrow> ask_chatbot U S query law_filter = Inr unavailable_message"
  using chat_prompt_returns [of U S query law_filter]
  by (auto simp: ask_chatbot_def)

lemma ask_chatbot_on_error:
  assumes "openai_client S = Some create" "chat_prompt U S query law_filter = Inr prompt"
    "create prompt = Inl e"
  shows "ask_chatbot U S query law_filter =
     Inr (if contains (py ''contract'') (lower U query) then contract_fallback
          else generic_fallback query e)"
  using assms by (simp add: ask_chatbot_def try_except_def)

lemma generic_fallback_ends:
  "suffix (py ''Error details: '' @ error_str e) (generic_fallback query e)"
  unfolding generic_fallback_def suffix_def by (metis append.assoc)

lemma contract_fallback_offer: "contains (py ''Offer and Acceptance'') contract_fallback"
proof -
  have eq: "contract_fallback =
      (py ''Based on KSA contract law, contracts must meet several requirements to be valid:\<newline>\<newline>''
       @ py ''1. **'')
      @ py ''Offer and Acceptance''
      @ (py ''**: Both parties must agree to the terms\<newline>''
         @ py ''2. **Capacity**: Parties must be legally capable of entering contracts\<newline>''
         @ py ''3. **Consideration**: There must be mutual benefit\<newline>''
         @ py ''4. **Legal Purpose**: The contract must be for lawful purposes\<newline>''
         @ py ''5. **Form**: Some contracts require specific forms (written, notarized, etc.)\<newline>\<newline>''
         @ py ''For specific legal advice, please consult with a qualified Saudi Arabian lawyer.'')"
    by (simp add: contract_fallback_def py_def)
  show ?thesis unfolding eq by (rule contains_append)
qed

lemma contract_fallback_nonempty: "contract_fallback \<noteq> []"
  by (simp add: contract_fallback_def py_def)

lemma backend_down_prompt:
  "chat_prompt U backend_down query law_filter = Inr (build_prompt U query law_filter [])"
  by (simp add: chat_prompt_def get_relevant_documents_def backend_down_def)

lemma lower_hello: "lower U (py ''hello'') = py ''hello''"
  by (simp add: lower_def py_def ascii_lower_def)

lemma lower_contract_question:
  "lower U (py ''Is my Contract valid?'') = py ''is my contract valid?''"
  by (simp add: lower_def py_def ascii_lower_def)

lemma no_contract_in_hello: "\<not> contains (py ''contract'') (py ''hello'')"
  by (simp add: py_def)

lemma contract_in_question: "contains (py ''contract'') (py ''is my contract valid?'')"
  by (simp add: py_def)

text \<open>
  Claim C4, as the code has it. When the call to the generation backend raises,
  \<open>ask_chatbot\<close> returns a text and no exception, and the text is fixed by the query and
  the error: the canned contract answer when the lowercased query contains \<open>contract\<close>,
  and otherwise the generic message, which quotes the query and ends with
  \<open>Error details:\<close> and the text of the error.
\<close>

theorem ask_chatbot_backend_error:
  "\<exists>prompt. chat_prompt U S query law_filter = Inr prompt
     \<and> (\<forall>create e. openai_client S = Some create \<and> create prompt = Inl e \<longrightarrow>
          ask_chatbot U S query law_filter =
            Inr (if contains (py ''contract'') (lower U query) then contract_fallback
                 else generic_fallback query e)
          \<and> suffix (py ''Error details: '' @ error_str e) (generic_fallback query e))"
proof -
  from chat_prompt_returns obtain prompt where p: "chat_prompt U S query law_filter = Inr prompt"
    by blast
  have "\<forall>create e. openai_client S = Some create \<and> create prompt = Inl e \<longrightarrow>
          ask_chatbot U S query law_filter =
            Inr (if contains (py ''contract'') (lower U query) then contract_fallback
                 else generic_fallback query e)
          \<and> suffix (py ''Error details: '' @ error_str e) (generic_fallback query e)"
    using ask_chatbot_on_error [OF _ p] generic_fallback_ends by blast
  with p show ?thesis by blast
qed

theorem ask_chatbot_backend_error_witness:
  "openai_client backend_down = Some failing_create
   \<and> failing_create (build_prompt ascii_ucd (py ''hello'') (py ''hybrid'') [])
       = Inl (PyException (py ''timeout''))
   \<and> ask_chatbot ascii_ucd backend_down (py ''hello'') (py ''hybrid'')
       = Inr (generic_fallback (py ''hello'') (PyException (py ''timeout'')))
   \<and> suffix (py ''Error details: '' @ py ''timeout'')
        (generic_fallback (py ''hello'') (PyException (py ''timeout'')))"
proof -
  have c: "openai_client backend_down = Some failing_create" by (simp add: backend_down_def)
  have f: "failing_create (build_prompt ascii_ucd (py ''hello'') (py ''hybrid'') [])
      = Inl (PyException (py ''timeout''))"
    by (simp add: failing_create_def)
  from ask_chatbot_backend_error [of ascii_ucd backend_down "py ''hello''" "py ''hybrid''"]
  have "ask_chatbot ascii_ucd backend_down (py ''hello'') (py ''hybrid'') =
            Inr (if contains (py ''contract'') (lower ascii_ucd (py ''hello'')) then contract_fallback
                 else generic_fallback (py ''hello'') (PyException (py ''timeout'')))
     \<and> suffix (py ''Error details: '' @ error_str (PyException (py ''timeout'')))
          (generic_fallback (py ''hello'') (PyException (py ''timeout'')))"
    using c f by (simp add: backend_down_prompt)
  then show ?thesis
    using c f by (simp add: lower_hello no_contract_in_hello error_str_def)
qed

text \<open>
  Claim C4, as stated, fails: for the query \<open>hello\<close> and a backend that raises with the
  text \<open>timeout\<close>, the answer is the generic message, and the text of the error is part
  of it.
\<close>

theorem ask_chatbot_shows_error:
  "ask_chatbot ascii_ucd backend_down (py ''hello'') (py ''hybrid'')
     = Inr (generic_fallback (py ''hello'') (PyException (py ''timeout'')))
   \<and> contains (error_str (PyException (py ''timeout'')))
        (generic_fallback (py ''hello'') (PyException (py ''timeout'')))"
proof -
  have "ask_chatbot ascii_ucd backend_down (py ''hello'') (py ''hybrid'')
     = Inr (generic_fallback (py ''hello'') (PyException (py ''timeout'')))"
  proof -
    have c: "openai_client backend_down = Some failing_create" by (simp add: backend_down_def)
    have f: "failing_create (build_prompt ascii_ucd (py ''hello'') (py ''hybrid'') [])
        = Inl (PyException (py ''timeout''))"
      by (simp add: failing_create_def)
    from ask_chatbot_on_error [OF c backend_down_prompt f] show ?thesis
      by (simp add: lower_hello no_contract_in_hello)
  qed
  moreover have "contains (error_str (PyException (py ''timeout'')))
        (generic_fallback (py ''hello'') (PyException (py ''timeout'')))"
  proof -
    have "generic_fallback (py ''hello'') (PyException (py ''timeout'')) =
        (py ''I'm currently unable to access the AI service to provide a detailed answer about \"''
         @ py ''hello'' @ py ''\". \<newline>\<newline>''
         @ py ''For accurate legal information about KSA law, I recommend:\<newline>''
         @ py ''- Consulting with a qualified Saudi Arabian lawyer\<newline>''
         @ py ''- Checking official government legal resources\<newline>''
         @ py ''- Contacting the Ministry of Justice\<newline>\<newline>''
         @ py ''Error details: '') @ error_str (PyException (py ''timeout''))"
      by (simp add: generic_fallback_def)
    then show ?thesis by (simp only: contains_at_end)
  qed
  ultimately show ?thesis by blast
qed

text \<open>
  Claim C5, as the code has it. When the client of the generation backend is missing,
  \<open>ask_chatbot\<close> returns the fixed message that the service is unavailable, whatever the
  query. When the client is there and its call raises, and the lowercased query contains
  \<open>contract\<close>, \<open>ask_chatbot\<close> returns the canned contract text, which is not empty and
  contains \<open>Offer and Acceptance\<close>.
\<close>

theorem ask_chatbot_contract_fallback:
  "(openai_client S = None \<longrightarrow> ask_chatbot U S query law_filter = Inr unavailable_message)
   \<and> (\<exists>prompt. chat_prompt U S query law_filter = Inr prompt
        \<and> (\<forall>create e. openai_client S = Some create \<and> create prompt = Inl e
              \<and> contains (py ''contract'') (lower U query) \<longrightarrow>
              ask_chatbot U S query law_filter = Inr contract_fallback))
   \<and> contract_fallback \<noteq> []
   \<and> contains (py ''Offer and Acceptance'') contract_fallback"
proof (intro conjI impI)
  assume "openai_client S = None"
  then show "ask_chatbot U S query law_filter = Inr unavailable_message"
    by (rule ask_chatbot_no_client)
next
  from chat_prompt_returns obtain prompt where p: "chat_prompt U S query law_filter = Inr prompt"
    by blast
  have "\<forall>create e. openai_client S = Some create \<and> create prompt = Inl e
              \<and> contains (py ''contract'') (lower U query) \<longrightarrow>
              ask_chatbot U S query law_filter = Inr contract_fallback"
    using ask_chatbot_on_error [OF _ p] by simp
  with p show "\<exists>prompt. chat_prompt U S query law_filter = Inr prompt
        \<and> (\<forall>create e. openai_client S = Some create \<and> create prompt = Inl e
              \<and> contains (py ''contract'') (lower U query) \<longrightarrow>
              ask_chatbot U S query law_filter = Inr contract_fallback)"
    by blast
next
  show "contract_fallback \<noteq> []" by (rule contract_fallback_nonempty)
next
  show "contains (py ''Offer and Acceptance'') contract_fallback"
    by (rule contract_fallback_offer)
qed

theorem ask_chatbot_contract_fallback_witness:
  "ask_chatbot ascii_ucd sample_services (py ''Is my Contract valid?'') (py ''hybrid'')
     = Inr unavailable_message
   \<and> contains (py ''contract'') (lower ascii_ucd (py ''Is my Contract valid?''))
   \<and> ask_chatbot ascii_ucd backend_down (py ''Is my Contract valid?'') (py ''hybrid'')
       = Inr contract_fallback"
proof -
  have n: "openai_client sample_services = None" by (simp add: sample_services_def)
  from ask_chatbot_contract_fallback
    [of sample_services ascii_ucd "py ''Is my Contract valid?''" "py ''hybrid''"] n
  have 1: "ask_chatbot ascii_ucd sample_services (py ''Is my Contract valid?'') (py ''hybrid'')
     = Inr unavailable_message"
    by blast
  have c: "openai_client backend_down = Some failing_create" by (simp add: backend_down_def)
  have k: "contains (py ''contract'') (lower ascii_ucd (py ''Is my Contract valid?''))"
    by (simp add: lower_contract_question contract_in_question)
  have f: "failing_create
      (build_prompt ascii_ucd (py ''Is my Contract valid?'') (py ''hybrid'') [])
      = Inl (PyException (py ''timeout''))"
    by (simp add: failing_create_def)
  from ask_chatbot_contract_fallback
    [of backend_down ascii_ucd "py ''Is my Contract valid?''" "py ''hybrid''"]
  have 2: "ask_chatbot ascii_ucd backend_down (py ''Is my Contract valid?'') (py ''hybrid'')
       = Inr contract_fallback"
    using c k f by (auto simp: backend_down_prompt)
  from 1 k 2 show ?thesis by blast
qed

text \<open>
  Claim C5, as stated, fails when absent means that there is no client: for the query
  \<open>contract\<close> the answer is then the message that the service is unavailable, which is not
  the contract text.
\<close>

theorem ask_chatbot_absent_backend:
  "openai_client sample_services = None
   \<and> contains (py ''contract'') (lower ascii_ucd (py ''contract''))
   \<and> ask_chatbot ascii_ucd sample_services (py ''contract'') (py ''hybrid'')
       = Inr unavailable_message
   \<and> unavailable_message \<noteq> contract_fallback"
proof -
  have n: "openai_client sample_services = None" by (simp add: sample_services_def)
  have k: "contains (py ''contract'') (lower ascii_ucd (py ''contract''))"
    by (simp add: lower_def py_def ascii_lower_def)
  have d: "unavailable_message \<noteq> contract_fallback"
    by (simp add: unavailable_message_def contract_fallback_def py_def)
  from n k d ask_chatbot_no_client [OF n] show ?thesis by blast
qed


end
